theory Spec2Isabelle
  imports Main "HOL-Library.Sublist" "HOL-Library.AList" "HOL-Library.List_Lexorder"
begin

section \<open>Python strings\<close>

text \<open>
  A Python \<open>str\<close> is a sequence of Unicode code points, so a string is a list of natural
  numbers. This matters for \<open>src/main.py\<close>: the two marker characters of the trader-name
  scan (U+1F4B0 and U+3010) are one code point each, and \<open>find(...) + 1\<close> steps over exactly
  one of them. Strings are compared as Python compares them, lexicographically by code point.
\<close>

type_synonym ustring = "nat list"

definition u :: "string \<Rightarrow> ustring" where
  "u s = map of_char s"

datatype error = IndexError | KeyError | TypeError | NameError | ValueError

text \<open>\<open>s.find(sub, start)\<close>: the least index at or after \<open>start\<close> where \<open>sub\<close> occurs, or -1.\<close>

primrec find_aux :: "ustring \<Rightarrow> ustring \<Rightarrow> nat \<Rightarrow> int" where
  "find_aux sub [] k = (if sub = [] then int k else - 1)"
| "find_aux sub (c # cs) k = (if prefix sub (c # cs) then int k else find_aux sub cs (Suc k))"

definition adjust_index :: "nat \<Rightarrow> int \<Rightarrow> nat" where
  "adjust_index n i = (if i < 0 then nat (max 0 (int n + i)) else min n (nat i))"

definition find_str :: "ustring \<Rightarrow> ustring \<Rightarrow> int \<Rightarrow> int" where
  "find_str s sub start =
     (if int (length s) < start then - 1
      else find_aux sub (drop (adjust_index (length s) start) s) (adjust_index (length s) start))"

text \<open>\<open>sub in s\<close>.\<close>

definition contains :: "ustring \<Rightarrow> ustring \<Rightarrow> bool" where
  "contains s sub = (find_str s sub 0 \<noteq> - 1)"

text \<open>\<open>s[a:b]\<close> and \<open>s[a:]\<close>, with Python's treatment of negative and oversized indices.\<close>

definition slice :: "ustring \<Rightarrow> int \<Rightarrow> int \<Rightarrow> ustring" where
  "slice s a b =
     (let lo = adjust_index (length s) a; hi = adjust_index (length s) b
      in take (hi - lo) (drop lo s))"

definition slice_from :: "ustring \<Rightarrow> int \<Rightarrow> ustring" where
  "slice_from s a = drop (adjust_index (length s) a) s"

text \<open>\<open>str.isspace\<close> on one code point: the white-space table of CPython.\<close>

definition isspace :: "nat \<Rightarrow> bool" where
  "isspace c = ((9 \<le> c \<and> c \<le> 13) \<or> (28 \<le> c \<and> c \<le> 32) \<or> c = 133 \<or> c = 160 \<or> c = 5760
     \<or> (8192 \<le> c \<and> c \<le> 8202) \<or> c = 8232 \<or> c = 8233 \<or> c = 8239 \<or> c = 8287 \<or> c = 12288)"

definition strip_with :: "(nat \<Rightarrow> bool) \<Rightarrow> ustring \<Rightarrow> ustring" where
  "strip_with p s = rev (dropWhile p (rev (dropWhile p s)))"

text \<open>\<open>s.strip()\<close> and \<open>s.strip('@')\<close>.\<close>

definition strip :: "ustring \<Rightarrow> ustring" where
  "strip s = strip_with isspace s"

definition strip_at :: "ustring \<Rightarrow> ustring" where
  "strip_at s = strip_with (\<lambda>c. c = 64) s"

text \<open>\<open>s.split(sep)\<close> for a one-character separator.\<close>

fun split_on :: "nat \<Rightarrow> ustring \<Rightarrow> ustring list" where
  "split_on sep [] = [[]]"
| "split_on sep (c # cs) =
     (if c = sep then [] # split_on sep cs
      else (case split_on sep cs of [] \<Rightarrow> [[c]] | w # ws \<Rightarrow> (c # w) # ws))"

text \<open>\<open>s.split(sep, 1)\<close>: at most one split, at the first occurrence of \<open>sep\<close>.\<close>

definition split1 :: "ustring \<Rightarrow> ustring \<Rightarrow> ustring list" where
  "split1 s sep =
     (let i = find_str s sep 0
      in if i < 0 then [s] else [slice s 0 i, slice_from s (i + int (length sep))])"

text \<open>\<open>s.split()\<close>: maximal runs of non-white-space characters.\<close>

fun split_ws_aux :: "ustring \<Rightarrow> ustring \<Rightarrow> ustring list" where
  "split_ws_aux cur [] = (if cur = [] then [] else [cur])"
| "split_ws_aux cur (c # cs) =
     (if isspace c then (if cur = [] then split_ws_aux [] cs else cur # split_ws_aux [] cs)
      else split_ws_aux (cur @ [c]) cs)"

definition split_ws :: "ustring \<Rightarrow> ustring list" where
  "split_ws s = split_ws_aux [] s"

text \<open>\<open>sep.join(xs)\<close>.\<close>

fun join :: "ustring \<Rightarrow> ustring list \<Rightarrow> ustring" where
  "join sep [] = []"
| "join sep [x] = x"
| "join sep (x # y # ys) = x @ sep @ join sep (y # ys)"

text \<open>\<open>xs[i]\<close> on a list, which raises \<open>IndexError\<close> out of range.\<close>

definition index :: "'a list \<Rightarrow> nat \<Rightarrow> error + 'a" where
  "index xs i = (if i < length xs then Inr (xs ! i) else Inl IndexError)"

text \<open>\<open>str(n)\<close> for an integer, and for a value that is an integer or \<open>None\<close>.\<close>

fun digits :: "nat \<Rightarrow> ustring" where
  "digits n = (if n < 10 then [48 + n] else digits (n div 10) @ [48 + n mod 10])"

declare digits.simps [simp del]

definition str_int :: "int \<Rightarrow> ustring" where
  "str_int i = (if i < 0 then 45 # digits (nat (- i)) else digits (nat i))"

definition str_opt_int :: "int option \<Rightarrow> ustring" where
  "str_opt_int v = (case v of None \<Rightarrow> u ''None'' | Some i \<Rightarrow> str_int i)"

definition str_opt :: "ustring option \<Rightarrow> ustring" where
  "str_opt v = (case v of None \<Rightarrow> u ''None'' | Some s \<Rightarrow> s)"

text \<open>
  \<open>str.lower\<close> is the Unicode case mapping of the Python runtime. The functions below take it
  as a parameter; \<open>ascii_lower\<close> is what it does on ASCII text.
\<close>

definition ascii_lower :: "ustring \<Rightarrow> ustring" where
  "ascii_lower s = map (\<lambda>c. if 65 \<le> c \<and> c \<le> 90 then c + 32 else c) s"


section \<open>Messages\<close>

text \<open>
  The dictionary built by \<open>fetch_messages\<close> in \<open>src/model/message_analyzer.py\<close>. The key
  \<open>reply_to_msg_id\<close> is only present on replies: \<open>None\<close> is what \<open>msg.get\<close> returns
  without it. \<open>datetime\<close> is the ISO string of the message's date, \<open>sender_id\<close> is \<open>None\<close>
  when the sender could not be resolved.
\<close>

record message =
  msg_id :: int
  datetime :: ustring
  timestamp :: ustring
  msg_text :: ustring
  sender_name :: ustring
  sender_id :: "int option"
  is_reply :: bool
  is_forwarded :: bool
  forwarded_from :: "ustring option"
  reply_to_msg_id :: "int option"

text \<open>An entry of \<open>target_users\<close>: a string, or (the \<open>isinstance\<close> test) a number.\<close>

datatype target = TStr ustring | TInt int


section \<open>filter_and_extend_messages\<close>

definition normalize_target :: "(ustring \<Rightarrow> ustring) \<Rightarrow> target \<Rightarrow> ustring" where
  "normalize_target lower t = (case t of TStr s \<Rightarrow> strip_at (lower s) | TInt i \<Rightarrow> str_int i)"

definition is_selected :: "(ustring \<Rightarrow> ustring) \<Rightarrow> ustring list \<Rightarrow> message \<Rightarrow> bool" where
  "is_selected lower target_users_lower msg =
     (strip_at (lower (sender_name msg)) \<in> set target_users_lower
      \<or> str_opt_int (sender_id msg) \<in> set target_users_lower)"

text \<open>
  The set comprehension of lines 172-176: the values \<open>msg.get("reply_to_msg_id")\<close> of the
  messages that are replies and whose \<open>reply_to_msg_id\<close> is truthy (neither \<open>None\<close> nor 0).
\<close>

definition context_ids :: "message list \<Rightarrow> int option list" where
  "context_ids filtered_messages =
     map reply_to_msg_id
       (filter (\<lambda>msg. is_reply msg \<and> reply_to_msg_id msg \<noteq> None \<and> reply_to_msg_id msg \<noteq> Some 0)
          filtered_messages)"

definition filter_and_extend_messages ::
  "(ustring \<Rightarrow> ustring) \<Rightarrow> message list \<Rightarrow> target list option \<Rightarrow> message list \<times> message list"
where
  "filter_and_extend_messages lower messages target_users =
     (case target_users of
        None \<Rightarrow> (messages, messages)
      | Some [] \<Rightarrow> (messages, messages)
      | Some (t # ts) \<Rightarrow>
          (let target_users_lower = map (normalize_target lower) (t # ts);
               filtered_messages = filter (is_selected lower target_users_lower) messages;
               context_message_ids = set (context_ids filtered_messages);
               filtered_ids = set (map msg_id filtered_messages);
               context_messages =
                 filter (\<lambda>msg. Some (msg_id msg) \<in> context_message_ids \<and> msg_id msg \<notin> filtered_ids)
                   messages
           in (filtered_messages, filtered_messages @ context_messages)))"


text \<open>Three messages, newest first, used to run the functions on a concrete input.\<close>

definition msg_bob :: message where
  "msg_bob = \<lparr>msg_id = 3, datetime = u ''2024-01-01T10:02'', timestamp = u ''10:02'',
     msg_text = u ''sure'', sender_name = u ''@Bob'', sender_id = Some 7, is_reply = True,
     is_forwarded = False, forwarded_from = None, reply_to_msg_id = Some 1\<rparr>"

definition msg_carol :: message where
  "msg_carol = \<lparr>msg_id = 2, datetime = u ''2024-01-01T10:01'', timestamp = u ''10:01'',
     msg_text = u ''news'', sender_name = u ''Carol'', sender_id = Some 8, is_reply = False,
     is_forwarded = True, forwarded_from = Some (u ''Feed''), reply_to_msg_id = None\<rparr>"

definition msg_alice :: message where
  "msg_alice = \<lparr>msg_id = 1, datetime = u ''2024-01-01T10:00'', timestamp = u ''10:00'',
     msg_text = u ''ok?'', sender_name = u ''@alice'', sender_id = None, is_reply = False,
     is_forwarded = False, forwarded_from = None, reply_to_msg_id = None\<rparr>"


section \<open>get_date_range\<close>

record date_range =
  earliest :: "ustring option"
  latest :: "ustring option"

definition get_date_range :: "message list \<Rightarrow> date_range" where
  "get_date_range messages =
     (if messages = [] then \<lparr>earliest = None, latest = None\<rparr>
      else \<lparr>earliest = (if messages \<noteq> [] then Some (timestamp (last messages)) else None),
            latest = (if messages \<noteq> [] then Some (timestamp (hd messages)) else None)\<rparr>)"

section \<open>The selection rule as the specification words it\<close>

text \<open>
  The specification's normalisation of a name: lower-case it and strip one leading \<open>@\<close>.
  It is compared below with \<open>strip_at\<close>, which is what \<open>strip('@')\<close> does.
\<close>

definition spec_strip_leading_at :: "ustring \<Rightarrow> ustring" where
  "spec_strip_leading_at s = (case s of [] \<Rightarrow> [] | c # cs \<Rightarrow> if c = 64 then cs else c # cs)"

definition spec_normalize_target :: "(ustring \<Rightarrow> ustring) \<Rightarrow> target \<Rightarrow> ustring" where
  "spec_normalize_target lower t =
     (case t of TStr s \<Rightarrow> spec_strip_leading_at (lower s) | TInt i \<Rightarrow> str_int i)"

definition spec_is_selected :: "(ustring \<Rightarrow> ustring) \<Rightarrow> target list \<Rightarrow> message \<Rightarrow> bool" where
  "spec_is_selected lower target_users msg =
     (spec_strip_leading_at (lower (sender_name msg)) \<in> set (map (spec_normalize_target lower) target_users)
      \<or> str_opt_int (sender_id msg) \<in> set (map (spec_normalize_target lower) target_users))"

section \<open>Parsing the model's response\<close>

text \<open>
  Lines 310-353 of \<open>generate_summaries\<close>, as a function of the response text. The only
  operation of this block that can raise is the indexing \<open>parts[0]\<close>, \<open>parts[1]\<close>.
\<close>

definition overall_marker :: ustring where
  "overall_marker = u ''```overall''"

definition participants_marker :: ustring where
  "participants_marker = u ''```participants''"

definition fence :: ustring where
  "fence = u ''```''"

text \<open>
  One iteration of the loop over the lines of the participants block (lines 330-346): the
  pair to store in \<open>participant_summaries\<close>, if the line gives one. 91, 93 and 58 are
  \<open>[\<close>, \<open>]\<close> and \<open>:\<close>.
\<close>

definition parse_line :: "ustring \<Rightarrow> error + (ustring \<times> ustring) option" where
  "parse_line line =
     (if contains line [93] \<and> contains line [91] then
        (let participant_start = find_str line [91] 0 + 1;
             participant_end = find_str line [93] 0
         in if participant_end > participant_start then
              (let participant = slice line participant_start participant_end;
                   summary_start = find_str line [58] participant_end + 1
               in if summary_start > 0
                  then Inr (Some (participant, strip (slice_from line summary_start)))
                  else Inr None)
            else Inr None)
      else if contains line [58] then
        (let parts = split1 line [58]
         in if length parts = 2 then
              (case index parts 0 of
                 Inl e \<Rightarrow> Inl e
               | Inr p0 \<Rightarrow>
                   (case index parts 1 of
                      Inl e \<Rightarrow> Inl e
                    | Inr p1 \<Rightarrow> Inr (Some (strip p0, strip p1))))
            else Inr None)
      else Inr None)"

text \<open>
  The loop itself. \<open>participant_summaries\<close> is a dict: an association list in insertion
  order, where storing under an existing key replaces the value in place.
\<close>

fun parse_lines ::
  "ustring list \<Rightarrow> (ustring \<times> ustring) list \<Rightarrow> error + (ustring \<times> ustring) list"
where
  "parse_lines [] participant_summaries = Inr participant_summaries"
| "parse_lines (line # rest) participant_summaries =
     (case parse_line line of
        Inl e \<Rightarrow> Inl e
      | Inr None \<Rightarrow> parse_lines rest participant_summaries
      | Inr (Some (participant, summary)) \<Rightarrow>
          parse_lines rest (AList.update participant summary participant_summaries))"

text \<open>Lines 315-319: \<open>None\<close> when no overall section is found.\<close>

definition parse_overall :: "ustring \<Rightarrow> ustring option" where
  "parse_overall unified_response =
     (if contains unified_response overall_marker \<and> contains unified_response fence then
        (let overall_start = find_str unified_response overall_marker 0 + 10;
             overall_end = find_str unified_response fence overall_start
         in if overall_end > overall_start
            then Some (strip (slice unified_response overall_start overall_end))
            else None)
      else None)"

text \<open>Lines 322-346. The offset added to the marker's position is 14, as in the source.\<close>

definition parse_participants :: "ustring \<Rightarrow> error + (ustring \<times> ustring) list" where
  "parse_participants unified_response =
     (if contains unified_response participants_marker \<and> contains unified_response fence then
        (let participants_start = find_str unified_response participants_marker 0 + 14;
             participants_end = find_str unified_response fence participants_start
         in if participants_end > participants_start then
              (let participants_text =
                     strip (slice unified_response participants_start participants_end)
               in parse_lines (split_on 10 participants_text) [])
            else Inr [])
      else Inr [])"

text \<open>Lines 310-353: the pair returned for a response.\<close>

definition parse_response :: "ustring \<Rightarrow> error + (ustring \<times> (ustring \<times> ustring) list)" where
  "parse_response unified_response =
     (case parse_participants unified_response of
        Inl e \<Rightarrow> Inl e
      | Inr participant_summaries \<Rightarrow>
          (case parse_overall unified_response of
             None \<Rightarrow> Inr (unified_response, participant_summaries)
           | Some overall_summary \<Rightarrow> Inr (overall_summary, participant_summaries)))"

section \<open>The line rules as the specification words them\<close>

text \<open>
  The specification's rule for one line of the participants block: the bracket rule applies
  when a \<open>[\<close> is followed, later in the line, by a \<open>]\<close>; otherwise a line with a \<open>:\<close> is
  split at the first \<open>:\<close>; otherwise the line is ignored.
\<close>

definition spec_parse_line :: "ustring \<Rightarrow> (ustring \<times> ustring) option" where
  "spec_parse_line line =
     (let after_open = drop 1 (dropWhile (\<lambda>c. c \<noteq> 91) line)
      in if 93 \<in> set after_open then
           (let name = takeWhile (\<lambda>c. c \<noteq> 93) after_open;
                after_close = dropWhile (\<lambda>c. c \<noteq> 93) after_open
            in if 58 \<in> set after_close
               then Some (name, strip (drop 1 (dropWhile (\<lambda>c. c \<noteq> 58) after_close)))
               else None)
         else if 58 \<in> set line then
           Some (strip (takeWhile (\<lambda>c. c \<noteq> 58) line),
                 strip (drop 1 (dropWhile (\<lambda>c. c \<noteq> 58) line)))
         else None)"

section \<open>organize_by_participant\<close>

text \<open>
  A dict from sender name to the list of that sender's messages, in insertion order. Every
  message of the model has the key \<open>sender_name\<close>, so the default \<open>Unknown\<close> of
  \<open>msg.get\<close> is never used.
\<close>

fun organize_into ::
  "message list \<Rightarrow> (ustring \<times> message list) list \<Rightarrow> (ustring \<times> message list) list"
where
  "organize_into [] participants = participants"
| "organize_into (msg # rest) participants =
     organize_into rest
       (AList.update (sender_name msg)
          ((case map_of participants (sender_name msg) of None \<Rightarrow> [] | Some ms \<Rightarrow> ms) @ [msg])
          participants)"

definition organize_by_participant :: "message list \<Rightarrow> (ustring \<times> message list) list" where
  "organize_by_participant messages = organize_into messages []"


section \<open>generate_summaries: the transcript\<close>

text \<open>Lines 245-249, the two f-strings. A \<open>forwarded_from\<close> that is \<open>None\<close> prints as \<open>None\<close>.\<close>

definition format_message :: "message \<Rightarrow> ustring" where
  "format_message msg =
     (if is_forwarded msg then
        u ''['' @ timestamp msg @ u ''] '' @ sender_name msg
          @ u '' shared content originally by '' @ str_opt (forwarded_from msg)
          @ u '': '' @ msg_text msg
      else u ''['' @ timestamp msg @ u ''] '' @ sender_name msg @ u '': '' @ msg_text msg)"

text \<open>
  Lines 242-252. \<open>sorted\<close> with a key is a stable sort, as \<open>sort_key\<close> is; the key is the
  ISO string \<open>datetime\<close>, compared as a string.
\<close>

definition all_formatted_messages :: "message list \<Rightarrow> ustring list" where
  "all_formatted_messages extended_messages =
     map format_message (sort_key datetime extended_messages)"

definition all_messages_text :: "message list \<Rightarrow> ustring" where
  "all_messages_text extended_messages = join [10] (all_formatted_messages extended_messages)"

text \<open>A message whose text has two lines.\<close>

definition msg_two_lines :: message where
  "msg_two_lines = \<lparr>msg_id = 4, datetime = u ''2024-01-01T10:03'', timestamp = u ''10:03'',
     msg_text = u ''a\<newline>b'', sender_name = u ''Dan'', sender_id = Some 9, is_reply = False,
     is_forwarded = False, forwarded_from = None, reply_to_msg_id = None\<rparr>"


section \<open>generate_summaries: trader names\<close>

text \<open>
  Lines 261-279, the body of the \<open>try\<close> for one message text. 128176 is the code point
  U+1F4B0 and 12304 is U+3010.
\<close>

definition from_marker :: ustring where
  "from_marker = u ''from: '' @ [128176]"

definition extract_trader_name :: "ustring \<Rightarrow> error + ustring option" where
  "extract_trader_name message_text =
     (if contains message_text from_marker \<or> contains message_text [128176] then
        (if contains message_text [128176] \<and> contains message_text [12304] then
           (let trader_start = find_str message_text [128176] 0 + 1;
                trader_end = find_str message_text [12304] 0
            in if trader_start > 0 \<and> trader_end > trader_start then
                 (let trader_name = strip (slice message_text trader_start trader_end)
                  in if trader_name \<noteq> [] then Inr (Some trader_name) else Inr None)
               else Inr None)
         else if contains message_text from_marker then
           (let parts = split1 message_text from_marker
            in if length parts > 1 then
                 (case index parts 1 of
                    Inl e \<Rightarrow> Inl e
                  | Inr p1 \<Rightarrow>
                      if strip p1 \<noteq> [] then
                        (case index (split_ws p1) 0 of
                           Inl e \<Rightarrow> Inl e
                         | Inr w \<Rightarrow>
                             (let trader_name = strip w
                              in if trader_name \<noteq> [] then Inr (Some trader_name) else Inr None))
                      else Inr None)
               else Inr None)
         else Inr None)
      else Inr None)"

text \<open>
  Lines 258-282: the loop with its \<open>try\<close> and \<open>except Exception: continue\<close>, for any body
  of the \<open>try\<close>. The set \<open>trader_names\<close> is a list without repetitions.
\<close>

fun collect_trader_names ::
  "(message \<Rightarrow> error + ustring option) \<Rightarrow> message list \<Rightarrow> ustring list \<Rightarrow> ustring list"
where
  "collect_trader_names body [] trader_names = trader_names"
| "collect_trader_names body (msg # rest) trader_names =
     (case body msg of
        Inl e \<Rightarrow> collect_trader_names body rest trader_names
      | Inr None \<Rightarrow> collect_trader_names body rest trader_names
      | Inr (Some trader_name) \<Rightarrow>
          collect_trader_names body rest (List.insert trader_name trader_names))"

text \<open>Line 285: \<open>sorted(list(trader_names))\<close>.\<close>

definition trader_names :: "message list \<Rightarrow> ustring list" where
  "trader_names extended_messages =
     sort (collect_trader_names (\<lambda>msg. extract_trader_name (msg_text msg)) extended_messages [])"


section \<open>generate_summaries and analyze_messages\<close>

text \<open>
  What lies outside \<open>src/main.py\<close>: \<open>format_prompt\<close> is \<open>get_prompt("overall_prompt")\<close>
  followed by \<open>str.format\<close> with the participants and the transcript (the template is a
  file of the installation, and both steps can raise); \<open>generate_summary_with_ai\<close> is the
  call to the model; \<open>str_error\<close> is \<open>str(e)\<close>.
\<close>

record collaborators =
  format_prompt :: "ustring \<Rightarrow> ustring \<Rightarrow> error + ustring"
  generate_summary_with_ai :: "ustring \<Rightarrow> ustring \<Rightarrow> ustring \<Rightarrow> error + ustring"
  str_error :: "error \<Rightarrow> ustring"

type_synonym summaries = "ustring \<times> (ustring \<times> ustring) list"

type_synonym ai_call = "ustring \<times> ustring \<times> ustring"

definition error_summary :: "collaborators \<Rightarrow> error \<Rightarrow> summaries" where
  "error_summary env e = (u ''Error generating unified summary: '' @ str_error env e, [])"

text \<open>
  \<open>generate_summaries\<close>, returning the summaries together with the list of the calls made
  to the model. When building the prompt fails, line 298 only logs: \<open>prompt\<close> is then unbound
  and evaluating the arguments of the call raises \<open>NameError\<close> inside the second \<open>try\<close>,
  before the call.
\<close>

definition generate_summaries ::
  "collaborators \<Rightarrow> message list \<Rightarrow> (ustring \<times> message list) list \<Rightarrow> ustring
     \<Rightarrow> summaries \<times> ai_call list"
where
  "generate_summaries env extended_messages participants model =
     (let transcript = all_messages_text extended_messages;
          participant_names = map fst participants;
          names = trader_names extended_messages;
          participants_str =
            (if participant_names \<noteq> [] then join (u '', '') participant_names else u ''None'')
      in case format_prompt env participants_str transcript of
           Inl e \<Rightarrow> (error_summary env NameError, [])
         | Inr prompt \<Rightarrow>
             (case generate_summary_with_ai env transcript model prompt of
                Inl e \<Rightarrow> (error_summary env e, [(transcript, model, prompt)])
              | Inr unified_response \<Rightarrow>
                  (case parse_response unified_response of
                     Inl e \<Rightarrow> (error_summary env e, [(transcript, model, prompt)])
                   | Inr r \<Rightarrow> (r, [(transcript, model, prompt)]))))"

record message_count =
  n_total :: nat
  n_filtered :: nat
  n_with_context :: nat

record results =
  res_status :: ustring
  res_chat_title :: ustring
  res_target_users :: "target list option"
  res_message_count :: message_count
  res_date_range :: date_range
  res_overall_summary :: "ustring option"
  res_by_participant :: "(ustring \<times> ustring) list"
  res_unread_count :: "nat option"

text \<open>
  Lines 100-139 of \<open>analyze_messages\<close>: what happens to the messages once they are fetched.
  \<open>unread\<close> is the unread count when only unread messages were requested.
\<close>

definition analyze_fetched ::
  "collaborators \<Rightarrow> (ustring \<Rightarrow> ustring) \<Rightarrow> message list \<Rightarrow> ustring \<Rightarrow> target list option
     \<Rightarrow> ustring \<Rightarrow> nat option \<Rightarrow> results \<times> ai_call list"
where
  "analyze_fetched env lower messages title targets model unread =
     (let (filtered_messages, extended_messages) =
            filter_and_extend_messages lower messages targets;
          participants = organize_by_participant extended_messages;
          (generated, calls) =
            (if extended_messages \<noteq> []
             then (let (r, cs) = generate_summaries env extended_messages participants model
                   in ((Some (fst r), snd r), cs))
             else ((None, []), []))
      in (\<lparr>res_status = u ''success'', res_chat_title = title, res_target_users = targets,
           res_message_count = \<lparr>n_total = length messages, n_filtered = length filtered_messages,
                             n_with_context = length extended_messages\<rparr>,
           res_date_range = get_date_range filtered_messages,
           res_overall_summary = fst generated, res_by_participant = snd generated,
           res_unread_count = unread\<rparr>, calls))"

text \<open>Collaborators that always succeed, to run the functions on a concrete input.\<close>

definition env_ok :: collaborators where
  "env_ok = \<lparr>format_prompt = (\<lambda>participants messages. Inr (participants @ [10] @ messages)),
     generate_summary_with_ai = (\<lambda>transcript model prompt. Inr (u ''fine'')),
     str_error = (\<lambda>e. u ''error'')\<rparr>"

text \<open>Three messages that name a trader, in the two conventions.\<close>

definition msg_trade_a :: message where
  "msg_trade_a = msg_alice\<lparr>msg_id := 5, msg_text := [128176] @ u '' Zed '' @ [12304] @ u ''x''\<rparr>"

definition msg_trade_b :: message where
  "msg_trade_b = msg_alice\<lparr>msg_id := 6, msg_text := from_marker @ u '' Amy now''\<rparr>"

definition msg_trade_c :: message where
  "msg_trade_c = msg_alice\<lparr>msg_id := 7, msg_text := [128176] @ u ''Zed'' @ [12304]\<rparr>"

text \<open>A message where U+3010 comes before the prefix token.\<close>

definition msg_trade_d :: message where
  "msg_trade_d = msg_alice\<lparr>msg_id := 8, msg_text := [12304] @ from_marker @ u '' Amy''\<rparr>"


section \<open>The prefix convention as the specification words it\<close>

text \<open>
  The second convention of the specification, taken alone: the first white-space-delimited
  token that follows the prefix token \<open>from: \<close> with U+1F4B0, wherever that token stands in
  the text.
\<close>

definition spec_prefix_convention :: "ustring \<Rightarrow> ustring option" where
  "spec_prefix_convention message_text =
     (if contains message_text from_marker then
        (case split_ws (slice_from message_text
                          (find_str message_text from_marker 0 + int (length from_marker))) of
           [] \<Rightarrow> None
         | w # ws \<Rightarrow> Some w)
      else None)"


section \<open>Results\<close>

text \<open>
  C4. With no target participants (the argument is \<open>None\<close> or the empty list),
  \<open>filter_and_extend_messages\<close> returns the input twice, unchanged and in its order.
\<close>

theorem filter_and_extend_identity:
  "filter_and_extend_messages lower messages None = (messages, messages)
   \<and> filter_and_extend_messages lower messages (Some []) = (messages, messages)"
  by (simp add: filter_and_extend_messages_def)

subsection \<open>Filtering and context extension\<close>

lemma strip_with_decomp:
  "\<exists>a b. s = a @ strip_with p s @ b \<and> (\<forall>c\<in>set a. p c) \<and> (\<forall>c\<in>set b. p c)"
proof -
  let ?t = "dropWhile p s"
  have 1: "s = takeWhile p s @ ?t" by simp
  have "rev (dropWhile p (rev ?t)) @ rev (takeWhile p (rev ?t))
          = rev (takeWhile p (rev ?t) @ dropWhile p (rev ?t))" by (simp only: rev_append)
  also have "\<dots> = rev (rev ?t)" by (simp only: takeWhile_dropWhile_id)
  finally have 2: "?t = strip_with p s @ rev (takeWhile p (rev ?t))"
    by (simp add: strip_with_def)
  have 3: "\<forall>c\<in>set (takeWhile p s). p c" by (auto dest: set_takeWhileD)
  have 4: "\<forall>c\<in>set (rev (takeWhile p (rev ?t))). p c" by (auto dest: set_takeWhileD)
  from 1 2 have "s = takeWhile p s @ strip_with p s @ rev (takeWhile p (rev ?t))" by simp
  with 3 4 show ?thesis by blast
qed

lemma strip_with_ends:
  assumes "strip_with p s \<noteq> []"
  shows "\<not> p (hd (strip_with p s)) \<and> \<not> p (last (strip_with p s))"
proof -
  let ?t = "dropWhile p s"
  let ?r = "dropWhile p (rev ?t)"
  from assms have rne: "?r \<noteq> []" by (simp add: strip_with_def)
  then have tne: "?t \<noteq> []" by (metis dropWhile.simps(1) rev.simps(1))
  have "last (strip_with p s) = hd ?r" using rne by (simp add: strip_with_def last_rev)
  moreover have "\<not> p (hd ?r)" using rne by (rule hd_dropWhile)
  moreover have "hd (strip_with p s) = last ?r" using rne by (simp add: strip_with_def hd_rev)
  moreover have "last ?r = last (rev ?t)"
  proof -
    have "rev ?t = takeWhile p (rev ?t) @ ?r" by simp
    then show ?thesis using rne by (metis last_appendR)
  qed
  moreover have "last (rev ?t) = hd ?t" using tne by (simp add: last_rev)
  moreover have "\<not> p (hd ?t)" using tne by (rule hd_dropWhile)
  ultimately show ?thesis by simp
qed

lemma all_same_replicate: "(\<forall>c\<in>set a. c = x) \<Longrightarrow> a = replicate (length a) x"
  by (induction a) auto

lemma strip_at_decomp:
  "\<exists>a b. s = replicate a 64 @ strip_at s @ replicate b 64"
proof -
  obtain a b where s: "s = a @ strip_at s @ b" and a: "\<forall>c\<in>set a. c = 64" and b: "\<forall>c\<in>set b. c = 64"
    using strip_with_decomp [of s "\<lambda>c. c = 64"] unfolding strip_at_def by blast
  from a have "a = replicate (length a) 64" by (rule all_same_replicate)
  moreover from b have "b = replicate (length b) 64" by (rule all_same_replicate)
  ultimately show ?thesis using s by metis
qed

lemma filtered_is_filter:
  "target_users \<noteq> [] \<Longrightarrow>
   fst (filter_and_extend_messages lower messages (Some target_users)) =
     filter (is_selected lower (map (normalize_target lower) target_users)) messages"
  by (cases target_users) (simp_all add: filter_and_extend_messages_def Let_def)

lemma extended_is_append:
  "target_users \<noteq> [] \<Longrightarrow>
   snd (filter_and_extend_messages lower messages (Some target_users)) =
     (let filtered = fst (filter_and_extend_messages lower messages (Some target_users)) in
      filtered @ filter (\<lambda>msg. Some (msg_id msg) \<in> set (context_ids filtered)
                               \<and> msg_id msg \<notin> set (map msg_id filtered)) messages)"
  by (cases target_users) (simp_all add: filter_and_extend_messages_def Let_def)

text \<open>
  C6 (as amended). With a non-empty target list, a string token is normalised by lower-casing
  it and stripping every leading and every trailing \<open>@\<close> (not only one leading \<open>@\<close>), a
  numeric token is rendered in decimal, and a message is selected into the filtered list if
  and only if its sender name, normalised the same way, or its sender id rendered as a string
  is equal to some normalised token. The match is equality, never a substring test.
\<close>

theorem filter_selects_exact_normalized_match:
  assumes "target_users \<noteq> []"
  shows "fst (filter_and_extend_messages lower messages (Some target_users)) =
           filter (\<lambda>msg. \<exists>t\<in>set target_users.
                      strip_at (lower (sender_name msg)) = normalize_target lower t
                    \<or> str_opt_int (sender_id msg) = normalize_target lower t) messages
       \<and> normalize_target lower (TStr s) = strip_at (lower s)
       \<and> normalize_target lower (TInt i) = str_int i
       \<and> (\<exists>a b. s = replicate a 64 @ strip_at s @ replicate b 64)
       \<and> (strip_at s = [] \<or> (hd (strip_at s) \<noteq> 64 \<and> last (strip_at s) \<noteq> 64))"
proof -
  have "is_selected lower (map (normalize_target lower) target_users) =
        (\<lambda>msg. \<exists>t\<in>set target_users.
                      strip_at (lower (sender_name msg)) = normalize_target lower t
                    \<or> str_opt_int (sender_id msg) = normalize_target lower t)"
    by (auto simp add: is_selected_def fun_eq_iff)
  then have 1: "fst (filter_and_extend_messages lower messages (Some target_users)) =
           filter (\<lambda>msg. \<exists>t\<in>set target_users.
                      strip_at (lower (sender_name msg)) = normalize_target lower t
                    \<or> str_opt_int (sender_id msg) = normalize_target lower t) messages"
    using filtered_is_filter [OF assms, of lower messages] by simp
  have 2: "strip_at s = [] \<or> (hd (strip_at s) \<noteq> 64 \<and> last (strip_at s) \<noteq> 64)"
    using strip_with_ends [of "\<lambda>c. c = 64" s] unfolding strip_at_def by blast
  show ?thesis using 1 2 strip_at_decomp [of s] by (simp add: normalize_target_def)
qed

theorem filter_selects_exact_normalized_match_witness:
  "fst (filter_and_extend_messages ascii_lower [msg_bob, msg_carol, msg_alice] (Some [TStr (u ''@BOB''), TInt 8]))
     = [msg_bob, msg_carol]
   \<and> normalize_target ascii_lower (TStr (u ''@@Bob@'')) = u ''bob''"
proof -
  have ne: "[TStr (u ''@BOB''), TInt 8] \<noteq> []" by simp
  have "filter (\<lambda>msg. \<exists>t\<in>set [TStr (u ''@BOB''), TInt 8].
                      strip_at (ascii_lower (sender_name msg)) = normalize_target ascii_lower t
                    \<or> str_opt_int (sender_id msg) = normalize_target ascii_lower t) [msg_bob, msg_carol, msg_alice]
         = [msg_bob, msg_carol]" by code_simp
  moreover have "strip_at (ascii_lower (u ''@@Bob@'')) = u ''bob''" by code_simp
  ultimately show ?thesis
    using filter_selects_exact_normalized_match [OF ne, of ascii_lower "[msg_bob, msg_carol, msg_alice]" "u ''@@Bob@''" 0]
    by simp
qed

text \<open>
  C6 as stated fails: the token \<open>alice@\<close> selects the messages of \<open>@alice\<close>, although
  after stripping one leading \<open>@\<close> the two names differ.
\<close>

theorem filter_leading_at_only_counterexample:
  "fst (filter_and_extend_messages ascii_lower [msg_alice] (Some [TStr (u ''alice@'')]))
     \<noteq> filter (spec_is_selected ascii_lower [TStr (u ''alice@'')]) [msg_alice]"
  by code_simp


text \<open>
  C1. When the message ids of the input are pairwise distinct and the target list is not
  empty, the extended list is the filtered list followed by the context messages (the input
  messages, in input order, that a reply in the filtered list refers to and that are not in
  the filtered list already), no message id occurs twice in it, and its length is the sum of
  the two lengths.
\<close>

theorem filter_and_extend_concat_dedup:
  assumes d: "distinct (map msg_id messages)" and ne: "target_users \<noteq> []"
    and r: "filter_and_extend_messages lower messages (Some target_users) = (filtered, extended)"
  shows "\<exists>context_messages.
           context_messages =
             filter (\<lambda>m. msg_id m \<notin> msg_id ` set filtered
                        \<and> (\<exists>r\<in>set filtered. is_reply r \<and> reply_to_msg_id r = Some (msg_id m) \<and> msg_id m \<noteq> 0))
               messages
         \<and> extended = filtered @ context_messages
         \<and> distinct (map msg_id extended)
         \<and> length extended = length filtered + length context_messages"
proof -
  let ?P = "\<lambda>m. Some (msg_id m) \<in> set (context_ids filtered) \<and> msg_id m \<notin> set (map msg_id filtered)"
  let ?Q = "\<lambda>m. msg_id m \<notin> msg_id ` set filtered
                        \<and> (\<exists>r\<in>set filtered. is_reply r \<and> reply_to_msg_id r = Some (msg_id m) \<and> msg_id m \<noteq> 0)"
  from r have f: "filtered = fst (filter_and_extend_messages lower messages (Some target_users))"
    and e: "extended = snd (filter_and_extend_messages lower messages (Some target_users))" by simp_all
  have ff: "filtered = filter (is_selected lower (map (normalize_target lower) target_users)) messages"
    using f filtered_is_filter [OF ne] by simp
  have ee: "extended = filtered @ filter ?P messages"
    using e f extended_is_append [OF ne, of lower messages] by (simp add: Let_def)
  have pq: "?P = ?Q" by (fastforce simp add: context_ids_def fun_eq_iff image_iff)
  have d1: "distinct (map msg_id filtered)" using d ff by (simp add: distinct_map_filter)
  have d2: "distinct (map msg_id (filter ?P messages))" using d by (simp add: distinct_map_filter)
  have d3: "set (map msg_id filtered) \<inter> set (map msg_id (filter ?P messages)) = {}"
    by (auto simp add: image_iff)
  have dd: "distinct (map msg_id extended)" using ee d1 d2 d3 by simp
  have "extended = filtered @ filter ?Q messages" using ee unfolding pq .
  then show ?thesis using dd by simp
qed

theorem filter_and_extend_concat_dedup_witness:
  "snd (filter_and_extend_messages ascii_lower [msg_bob, msg_carol, msg_alice] (Some [TStr (u ''@BOB'')]))
     = [msg_bob] @ [msg_alice]
   \<and> distinct (map msg_id [msg_bob, msg_alice])"
proof -
  have d: "distinct (map msg_id [msg_bob, msg_carol, msg_alice])" by code_simp
  have ne: "[TStr (u ''@BOB'')] \<noteq> []" by simp
  have r: "filter_and_extend_messages ascii_lower [msg_bob, msg_carol, msg_alice] (Some [TStr (u ''@BOB'')])
             = ([msg_bob], [msg_bob, msg_alice])" by code_simp
  show ?thesis using filter_and_extend_concat_dedup [OF d ne r] r by simp
qed

subsection \<open>Searching in strings\<close>

lemma find_aux_first:
  "\<forall>i<length pre. \<not> prefix sub (drop i (pre @ sub @ post)) \<Longrightarrow>
   find_aux sub (pre @ sub @ post) k = int (k + length pre)"
proof (induction pre arbitrary: k)
  case Nil
  show ?case
  proof (cases "sub @ post")
    case Nil
    then show ?thesis by simp
  next
    case (Cons c cs)
    have "prefix sub (sub @ post)" by simp
    then show ?thesis unfolding Cons by simp
  qed
next
  case (Cons a pre)
  from Cons.prems have 0: "\<not> prefix sub (a # pre @ sub @ post)" by force
  have "\<forall>i<length pre. \<not> prefix sub (drop i (pre @ sub @ post))"
  proof (intro allI impI)
    fix i assume "i < length pre"
    then have "Suc i < length (a # pre)" by simp
    with Cons.prems have "\<not> prefix sub (drop (Suc i) ((a # pre) @ sub @ post))" by blast
    then show "\<not> prefix sub (drop i (pre @ sub @ post))" by simp
  qed
  then have "find_aux sub (pre @ sub @ post) (Suc k) = int (Suc k + length pre)"
    by (rule Cons.IH)
  with 0 show ?case by simp
qed

lemma find_aux_none:
  "\<forall>i\<le>length xs. \<not> prefix sub (drop i xs) \<Longrightarrow> find_aux sub xs k = - 1"
proof (induction xs arbitrary: k)
  case Nil
  then show ?case by auto
next
  case (Cons a xs)
  from Cons.prems have 0: "\<not> prefix sub (a # xs)" by force
  have "\<forall>i\<le>length xs. \<not> prefix sub (drop i xs)"
  proof (intro allI impI)
    fix i assume "i \<le> length xs"
    then have "Suc i \<le> length (a # xs)" by simp
    with Cons.prems have "\<not> prefix sub (drop (Suc i) (a # xs))" by blast
    then show "\<not> prefix sub (drop i xs)" by simp
  qed
  then have "find_aux sub xs (Suc k) = - 1" by (rule Cons.IH)
  with 0 show ?case by simp
qed

lemma find_aux_found:
  "find_aux sub xs k \<noteq> - 1 \<Longrightarrow>
   \<exists>n. find_aux sub xs k = int (k + n) \<and> n \<le> length xs \<and> prefix sub (drop n xs)
       \<and> (\<forall>i<n. \<not> prefix sub (drop i xs))"
proof (induction xs arbitrary: k)
  case Nil
  then show ?case by (auto split: if_splits)
next
  case (Cons a xs)
  show ?case
  proof (cases "prefix sub (a # xs)")
    case True
    then show ?thesis by (intro exI [of _ 0]) simp
  next
    case False
    with Cons.prems have "find_aux sub xs (Suc k) \<noteq> - 1" by simp
    from Cons.IH [OF this] obtain n where n: "find_aux sub xs (Suc k) = int (Suc k + n)"
      "n \<le> length xs" "prefix sub (drop n xs)" "\<forall>i<n. \<not> prefix sub (drop i xs)" by blast
    have "\<forall>i<Suc n. \<not> prefix sub (drop i (a # xs))"
    proof (intro allI impI)
      fix i assume i: "i < Suc n"
      show "\<not> prefix sub (drop i (a # xs))"
      proof (cases i)
        case 0 with False show ?thesis by simp
      next
        case (Suc j) with i n(4) show ?thesis by simp
      qed
    qed
    with False n show ?thesis by (intro exI [of _ "Suc n"]) simp
  qed
qed

lemma find_str_nat:
  "n \<le> length s \<Longrightarrow> find_str s sub (int n) = find_aux sub (drop n s) n"
  by (simp add: find_str_def adjust_index_def)

lemma find_str_0: "find_str s sub 0 = find_aux sub s 0"
  by (simp add: find_str_def adjust_index_def)

lemma slice_nat:
  "a \<le> b \<Longrightarrow> b \<le> length s \<Longrightarrow> slice s (int a) (int b) = take (b - a) (drop a s)"
  by (simp add: slice_def adjust_index_def Let_def)

lemma slice_from_nat: "a \<le> length s \<Longrightarrow> slice_from s (int a) = drop a s"
  by (simp add: slice_from_def adjust_index_def)

lemma find_aux_char:
  "find_aux [c] xs k =
     (if c \<in> set xs then int (k + length (takeWhile (\<lambda>x. x \<noteq> c) xs)) else - 1)"
  by (induction xs arbitrary: k) auto

lemma contains_char: "contains s [c] = (c \<in> set s)"
  by (simp add: contains_def find_str_0 find_aux_char)

lemma find_aux_hit:
  "prefix sub (drop n xs) \<Longrightarrow> n \<le> length xs \<Longrightarrow> find_aux sub xs k \<noteq> - 1"
proof (induction xs arbitrary: n k)
  case Nil
  then show ?case by simp
next
  case (Cons a xs)
  show ?case
  proof (cases "prefix sub (a # xs)")
    case True
    then show ?thesis by simp
  next
    case False
    with Cons.prems obtain m where m: "n = Suc m" by (cases n) auto
    with Cons.prems have "prefix sub (drop m xs)" "m \<le> length xs" by simp_all
    then have "find_aux sub xs (Suc k) \<noteq> - 1" by (rule Cons.IH)
    with False show ?thesis by simp
  qed
qed

lemma contains_iff: "contains s sub = (\<exists>n\<le>length s. prefix sub (drop n s))"
proof
  assume "contains s sub"
  then have "find_aux sub s 0 \<noteq> - 1" by (simp add: contains_def find_str_0)
  from find_aux_found [OF this] show "\<exists>n\<le>length s. prefix sub (drop n s)" by blast
next
  assume "\<exists>n\<le>length s. prefix sub (drop n s)"
  then show "contains s sub"
    by (auto simp add: contains_def find_str_0 dest: find_aux_hit)
qed

subsection \<open>The response parser\<close>

lemma length_overall_marker: "length overall_marker = 10"
  by (simp add: overall_marker_def u_def)

lemma length_fence: "length fence = 3"
  by (simp add: fence_def u_def)

lemma fence_prefix_overall_marker: "prefix fence overall_marker"
  by (simp add: overall_marker_def fence_def u_def)

lemma parse_line_no_error: "parse_line line \<noteq> Inl e"
  by (auto simp add: parse_line_def Let_def index_def split: sum.splits)

lemma parse_lines_no_error: "\<exists>d'. parse_lines ls d = Inr d'"
proof (induction ls arbitrary: d)
  case Nil
  show ?case by simp
next
  case (Cons line ls)
  show ?case
  proof (cases "parse_line line")
    case (Inl e)
    then show ?thesis by (simp add: parse_line_no_error)
  next
    case (Inr r)
    then show ?thesis using Cons.IH by (cases r) auto
  qed
qed

lemma parse_participants_no_error: "\<exists>ps. parse_participants raw = Inr ps"
  using parse_lines_no_error by (simp add: parse_participants_def Let_def)

lemma parse_response_overall:
  "\<exists>ps. parse_response raw = Inr (case parse_overall raw of None \<Rightarrow> raw | Some s \<Rightarrow> s, ps)"
proof -
  obtain ps where "parse_participants raw = Inr ps" using parse_participants_no_error by blast
  then show ?thesis by (simp add: parse_response_def split: option.splits)
qed

lemma no_fence_parse_response: "\<not> contains raw fence \<Longrightarrow> parse_response raw = Inr (raw, [])"
  by (simp add: parse_response_def parse_participants_def parse_overall_def)

lemma parse_overall_found:
  assumes raw: "raw = pre @ overall_marker @ content @ fence @ post"
    and first: "\<forall>i<length pre. \<not> prefix overall_marker (drop i raw)"
    and ne: "content \<noteq> []"
    and close: "\<forall>i<length content. \<not> prefix fence (drop i (content @ fence @ post))"
  shows "parse_overall raw = Some (strip content)"
proof -
  let ?rest = "content @ fence @ post"
  have f0: "find_str raw overall_marker 0 = int (length pre)"
    using find_aux_first [of pre overall_marker ?rest 0] first
    unfolding raw find_str_0 by simp
  have c1: "contains raw overall_marker" using f0 by (simp add: contains_def)
  have "prefix fence (drop (length pre) raw)"
    unfolding raw by (simp add: prefix_prefix fence_prefix_overall_marker)
  then have c2: "contains raw fence" unfolding contains_iff
    by (intro exI [of _ "length pre"]) (simp add: raw)
  let ?start = "length pre + 10"
  have le: "?start \<le> length raw" by (simp add: raw length_overall_marker)
  have dr: "drop ?start raw = ?rest" by (simp add: raw length_overall_marker)
  have f1: "find_str raw fence (int ?start) = int (?start + length content)"
    using find_aux_first [of content fence post ?start] close
    unfolding find_str_nat [OF le] dr by simp
  have sl: "slice raw (int ?start) (int (?start + length content)) = content"
  proof -
    have "?start + length content \<le> length raw" by (simp add: raw length_overall_marker)
    then have "slice raw (int ?start) (int (?start + length content))
                 = take (?start + length content - ?start) (drop ?start raw)"
      by (intro slice_nat) simp_all
    then show ?thesis by (simp add: dr)
  qed
  have st: "find_str raw overall_marker 0 + 10 = int ?start" using f0 by simp
  show ?thesis
    unfolding parse_overall_def Let_def st f1 using c1 c2 ne sl by simp
qed

lemma parse_overall_SomeD:
  assumes "parse_overall raw = Some s"
  shows "\<exists>pre content post. raw = pre @ overall_marker @ content @ fence @ post
           \<and> (\<forall>i<length pre. \<not> prefix overall_marker (drop i raw))
           \<and> content \<noteq> []
           \<and> (\<forall>i<length content. \<not> prefix fence (drop i (content @ fence @ post)))
           \<and> s = strip content"
proof -
  let ?start = "find_str raw overall_marker 0 + 10"
  let ?end = "find_str raw fence ?start"
  from assms have c: "contains raw overall_marker" and gt: "?end > ?start"
    and s: "s = strip (slice raw ?start ?end)"
    by (auto simp add: parse_overall_def Let_def split: if_splits)
  from c have "find_aux overall_marker raw 0 \<noteq> - 1" by (simp add: contains_def find_str_0)
  from find_aux_found [OF this] obtain n where n: "find_aux overall_marker raw 0 = int n"
    "n \<le> length raw" "prefix overall_marker (drop n raw)"
    "\<forall>i<n. \<not> prefix overall_marker (drop i raw)" by auto
  from n(3) obtain rest where rest: "drop n raw = overall_marker @ rest" by (auto simp: prefix_def)
  have raw: "raw = take n raw @ overall_marker @ rest" using rest by (metis append_take_drop_id)
  have ln: "length (take n raw) = n" using n(2) by simp
  have st: "?start = int (n + 10)" using n(1) by (simp add: find_str_0)
  have le: "n + 10 \<le> length raw"
    using arg_cong [OF rest, of length] by (simp add: length_overall_marker)
  have dr: "drop (n + 10) raw = rest"
  proof -
    have "drop (n + 10) raw = drop 10 (drop n raw)" by (simp add: add.commute)
    then show ?thesis by (simp add: rest length_overall_marker)
  qed
  have e: "?end = find_aux fence rest (n + 10)" unfolding st find_str_nat [OF le] dr ..
  with gt st have "find_aux fence rest (n + 10) \<noteq> - 1" by simp
  from find_aux_found [OF this] obtain m where m: "find_aux fence rest (n + 10) = int (n + 10 + m)"
    "m \<le> length rest" "prefix fence (drop m rest)" "\<forall>i<m. \<not> prefix fence (drop i rest)" by auto
  from m(3) obtain post where post: "drop m rest = fence @ post" by (auto simp: prefix_def)
  have rr: "rest = take m rest @ fence @ post" using post by (metis append_take_drop_id)
  have lm: "length (take m rest) = m" using m(2) by simp
  have mpos: "m > 0" using gt e st m(1) by simp
  have sl: "slice raw ?start ?end = take m rest"
  proof -
    have "n + 10 + m \<le> length raw" using le m(2) dr by (metis add_le_cancel_left diff_add_inverse le_add_diff_inverse length_drop)
    then have "slice raw (int (n + 10)) (int (n + 10 + m)) = take (n + 10 + m - (n + 10)) (drop (n + 10) raw)"
      by (intro slice_nat) simp_all
    then have "slice raw (int (n + 10)) (int (n + 10 + m)) = take m rest" by (simp add: dr)
    moreover have "?end = int (n + 10 + m)" using e m(1) by simp
    ultimately show ?thesis by (simp only: st)
  qed
  have "raw = take n raw @ overall_marker @ take m rest @ fence @ post" using raw rr by simp
  moreover have "\<forall>i<length (take n raw). \<not> prefix overall_marker (drop i raw)" using n(4) ln by simp
  moreover have "take m rest \<noteq> []" using mpos lm by auto
  moreover have "\<forall>i<length (take m rest). \<not> prefix fence (drop i (take m rest @ fence @ post))"
    using m(4) lm rr by simp
  moreover have "s = strip (take m rest)" using s sl by simp
  ultimately show ?thesis by blast
qed

text \<open>
  C2. On every response text the parser returns a pair and raises nothing. A text without
  the closing token (in particular the empty text, white space only, or no marker at all)
  comes back whole as the overall summary, with no participant summaries; so does
  \<open>random text with no markers\<close>.
\<close>

theorem parse_response_total:
  "(\<exists>overall by_participant. parse_response raw = Inr (overall, by_participant))
   \<and> (\<not> contains raw fence \<longrightarrow> parse_response raw = Inr (raw, []))
   \<and> parse_response [] = Inr ([], [])
   \<and> parse_response (u ''random text with no markers'') = Inr (u ''random text with no markers'', [])"
proof -
  have 1: "\<exists>overall by_participant. parse_response raw = Inr (overall, by_participant)"
    using parse_response_overall [of raw] by blast
  have 2: "parse_response [] = Inr ([], [])"
    by (rule no_fence_parse_response) (simp add: contains_def find_str_0 fence_def u_def)
  have 3: "parse_response (u ''random text with no markers'')
             = Inr (u ''random text with no markers'', [])"
    by (rule no_fence_parse_response)
       (simp add: contains_def find_str_def adjust_index_def fence_def u_def)
  show ?thesis using 1 2 3 no_fence_parse_response by blast
qed

theorem parse_response_total_witness:
  "\<not> contains (u '' \<newline> '') fence \<and> parse_response (u '' \<newline> '') = Inr (u '' \<newline> '', [])"
proof -
  have c: "\<not> contains (u '' \<newline> '') fence"
    by (simp add: contains_def find_str_def adjust_index_def fence_def u_def)
  then show ?thesis using parse_response_total [of "u '' \<newline> ''"] by blast
qed

text \<open>
  C3. When the response is \<open>pre\<close>, the overall start marker (its first occurrence), a
  non-empty \<open>content\<close>, the closing token (its first occurrence from the start of the
  content on) and \<open>post\<close>, the overall summary is the trimmed \<open>content\<close>; the block
  \<open>```overall\<close>, \<open>SUMMARY\<close>, \<open>```\<close> on three lines gives \<open>SUMMARY\<close>. When the response
  has no such decomposition, the whole response is the overall summary.
\<close>

theorem parse_overall_section:
  "(raw = pre @ overall_marker @ content @ fence @ post
      \<and> (\<forall>i<length pre. \<not> prefix overall_marker (drop i raw))
      \<and> content \<noteq> []
      \<and> (\<forall>i<length content. \<not> prefix fence (drop i (content @ fence @ post)))
     \<longrightarrow> (\<exists>by_participant. parse_response raw = Inr (strip content, by_participant)))
   \<and> parse_response (u ''```overall\<newline>SUMMARY\<newline>```'') = Inr (u ''SUMMARY'', [])
   \<and> ((\<nexists>pre' content' post'.
          raw = pre' @ overall_marker @ content' @ fence @ post'
          \<and> (\<forall>i<length pre'. \<not> prefix overall_marker (drop i raw))
          \<and> content' \<noteq> []
          \<and> (\<forall>i<length content'. \<not> prefix fence (drop i (content' @ fence @ post'))))
       \<longrightarrow> (\<exists>by_participant. parse_response raw = Inr (raw, by_participant)))"
proof (intro conjI impI)
  assume "raw = pre @ overall_marker @ content @ fence @ post
      \<and> (\<forall>i<length pre. \<not> prefix overall_marker (drop i raw))
      \<and> content \<noteq> []
      \<and> (\<forall>i<length content. \<not> prefix fence (drop i (content @ fence @ post)))"
  then have "parse_overall raw = Some (strip content)"
    by (elim conjE) (rule parse_overall_found, assumption+)
  then show "\<exists>by_participant. parse_response raw = Inr (strip content, by_participant)"
    using parse_response_overall [of raw] by simp
next
  show "parse_response (u ''```overall\<newline>SUMMARY\<newline>```'') = Inr (u ''SUMMARY'', [])"
    by (simp add: parse_response_def parse_participants_def parse_overall_def contains_def
          find_str_def adjust_index_def slice_def strip_def strip_with_def isspace_def
          overall_marker_def participants_marker_def fence_def u_def Let_def)
next
  assume no: "\<nexists>pre' content' post'.
          raw = pre' @ overall_marker @ content' @ fence @ post'
          \<and> (\<forall>i<length pre'. \<not> prefix overall_marker (drop i raw))
          \<and> content' \<noteq> []
          \<and> (\<forall>i<length content'. \<not> prefix fence (drop i (content' @ fence @ post')))"
  have "parse_overall raw = None"
  proof (cases "parse_overall raw")
    case None
    then show ?thesis .
  next
    case (Some s)
    from parse_overall_SomeD [OF this] no show ?thesis by blast
  qed
  then show "\<exists>by_participant. parse_response raw = Inr (raw, by_participant)"
    using parse_response_overall [of raw] by simp
qed

theorem parse_overall_section_witness:
  "(\<exists>by_participant. parse_response (u ''x```overall S ```y'') = Inr (u ''S'', by_participant))
   \<and> (\<exists>by_participant. parse_response (u ''```overall```'') = Inr (u ''```overall```'', by_participant))"
proof -
  let ?raw = "u ''x```overall S ```y''"
  have a: "?raw = u ''x'' @ overall_marker @ u '' S '' @ fence @ u ''y''"
    by (simp add: overall_marker_def fence_def u_def)
  have b: "\<forall>i<length (u ''x''). \<not> prefix overall_marker (drop i ?raw)"
    by (simp add: overall_marker_def u_def)
  have c: "u '' S '' \<noteq> []" by (simp add: u_def)
  have d: "\<forall>i<length (u '' S ''). \<not> prefix fence (drop i (u '' S '' @ fence @ u ''y''))"
    by (simp add: fence_def u_def less_Suc_eq numeral_3_eq_3)
  have e: "strip (u '' S '') = u ''S''"
    by (simp add: strip_def strip_with_def isspace_def u_def)
  let ?raw2 = "u ''```overall```''"
  have f: "\<nexists>pre' content' post'.
          ?raw2 = pre' @ overall_marker @ content' @ fence @ post'
          \<and> (\<forall>i<length pre'. \<not> prefix overall_marker (drop i ?raw2))
          \<and> content' \<noteq> []
          \<and> (\<forall>i<length content'. \<not> prefix fence (drop i (content' @ fence @ post')))"
  proof
    assume "\<exists>pre' content' post'.
          ?raw2 = pre' @ overall_marker @ content' @ fence @ post'
          \<and> (\<forall>i<length pre'. \<not> prefix overall_marker (drop i ?raw2))
          \<and> content' \<noteq> []
          \<and> (\<forall>i<length content'. \<not> prefix fence (drop i (content' @ fence @ post')))"
    then obtain pre' content' post' where
      eq: "?raw2 = pre' @ overall_marker @ content' @ fence @ post'" and ne: "content' \<noteq> []"
      by blast
    from arg_cong [OF eq, of length] ne show False
      by (simp add: u_def length_overall_marker length_fence)
  qed
  from parse_overall_section [of ?raw "u ''x''" "u '' S ''" "u ''y''"] a b c d e
  have 1: "\<exists>by_participant. parse_response ?raw = Inr (u ''S'', by_participant)" by simp
  from parse_overall_section [of ?raw2 "[]" "[]" "[]"] f
  have 2: "\<exists>by_participant. parse_response ?raw2 = Inr (?raw2, by_participant)" by blast
  from 1 2 show ?thesis by blast
qed

subsection \<open>The lines of the participants block\<close>

lemma find_aux_char_decomp:
  "c \<notin> set a \<Longrightarrow> find_aux [c] (a @ c # r) k = int (k + length a)"
  by (induction a arbitrary: k) auto

lemma find_aux_char_absent: "c \<notin> set xs \<Longrightarrow> find_aux [c] xs k = - 1"
  by (simp add: find_aux_char)

lemma parse_line_brackets_ok:
  assumes line: "line = a @ [91] @ name @ [93] @ b @ [58] @ c"
    and a: "91 \<notin> set a" "93 \<notin> set a" and name: "93 \<notin> set name" "name \<noteq> []"
    and b: "58 \<notin> set b"
  shows "parse_line line = Inr (Some (name, strip c))"
proof -
  let ?j = "length a + 1 + length name"
  have c1: "contains line [93]" "contains line [91]" by (simp_all add: contains_char line)
  have f1: "find_str line [91] 0 = int (length a)"
    unfolding find_str_0 line using find_aux_char_decomp [OF a(1), of _ 0] by simp
  have "93 \<notin> set (a @ [91] @ name)" using a(2) name(1) by simp
  from find_aux_char_decomp [OF this, of "b @ [58] @ c" 0]
  have f2: "find_str line [93] 0 = int ?j" unfolding find_str_0 line by simp
  have le: "?j \<le> length line" by (simp add: line)
  have dr: "drop ?j line = (93 # b) @ 58 # c" by (simp add: line)
  have "58 \<notin> set (93 # b)" using b by simp
  from find_aux_char_decomp [OF this, of c ?j]
  have f3: "find_str line [58] (int ?j) = int (?j + length b + 1)"
    unfolding find_str_nat [OF le] dr by simp
  have s1: "slice line (int (length a + 1)) (int ?j) = name"
  proof -
    have "slice line (int (length a + 1)) (int ?j) = take (?j - (length a + 1)) (drop (length a + 1) line)"
      by (intro slice_nat) (simp_all add: line)
    then show ?thesis by (simp add: line)
  qed
  have s2: "slice_from line (int (?j + length b + 1 + 1)) = c"
  proof -
    define front where "front = a @ [91] @ name @ [93] @ b @ [58]"
    have lf: "length front = ?j + length b + 1 + 1" by (simp add: front_def)
    have lineq: "line = front @ c" by (simp add: line front_def)
    have "slice_from line (int (length front)) = drop (length front) line"
      by (intro slice_from_nat) (simp add: lineq)
    also have "\<dots> = c" by (simp add: lineq)
    finally show ?thesis by (simp only: lf)
  qed
  have e1: "find_str line [91] 0 + 1 = int (length a + 1)" using f1 by simp
  have e3: "find_str line [58] (int ?j) + 1 = int (?j + length b + 1 + 1)" using f3 by simp
  have gt: "int (length a + 1) < int ?j" using name(2) by simp
  show ?thesis
    unfolding parse_line_def Let_def e1 f2 e3 s1 s2 using c1 gt by simp
qed

lemma parse_line_brackets_SomeD:
  assumes lb: "91 \<in> set line" and rb: "93 \<in> set line"
    and res: "parse_line line = Inr (Some (p, s))"
  shows "\<exists>a b c. line = a @ [91] @ p @ [93] @ b @ [58] @ c \<and> 91 \<notin> set a \<and> 93 \<notin> set a
           \<and> 93 \<notin> set p \<and> p \<noteq> [] \<and> 58 \<notin> set b \<and> s = strip c"
proof -
  from lb obtain a r1 where l1: "line = a @ 91 # r1" and a1: "91 \<notin> set a"
    by (auto dest: split_list_first)
  from rb obtain a2 r2 where l2: "line = a2 @ 93 # r2" and a2: "93 \<notin> set a2"
    by (auto dest: split_list_first)
  have f1: "find_str line [91] 0 = int (length a)"
    unfolding find_str_0 using find_aux_char_decomp [OF a1, of r1 0] l1 by simp
  have f2: "find_str line [93] 0 = int (length a2)"
    unfolding find_str_0 using find_aux_char_decomp [OF a2, of r2 0] l2 by simp
  have c: "contains line [93] \<and> contains line [91]" using lb rb by (simp add: contains_char)
  from res c have gt: "find_str line [93] 0 > find_str line [91] 0 + 1"
    and fc: "find_str line [58] (find_str line [93] 0) + 1 > 0"
    by (auto simp add: parse_line_def Let_def split: if_splits)
  from gt f1 f2 have lt: "length a + 1 < length a2" by simp
  have "take (length a2) line = a2" using l2 by simp
  moreover have "take (length a2) line = a @ 91 # take (length a2 - length a - 1) r1"
    using lt by (simp add: l1 take_Cons')
  ultimately have a2eq: "a2 = a @ 91 # take (length a2 - length a - 1) r1" by simp
  define name where "name = take (length a2 - length a - 1) r1"
  have a2n: "a2 = a @ 91 # name" using a2eq name_def by simp
  have lenname: "length name = length a2 - length a - 1"
    using arg_cong [OF a2n, of length] by simp
  then have nne: "name \<noteq> []" using lt by auto
  have le: "length a2 \<le> length line" by (simp add: l2)
  have dr: "drop (length a2) line = 93 # r2" by (simp add: l2)
  from fc have "find_aux [58] (93 # r2) (length a2) \<noteq> - 1"
    unfolding f2 find_str_nat [OF le] dr by simp
  then have "58 \<in> set r2" by (auto simp add: find_aux_char split: if_splits)
  then obtain b c' where r2: "r2 = b @ 58 # c'" and b: "58 \<notin> set b"
    by (auto dest: split_list_first)
  have line: "line = a @ [91] @ name @ [93] @ b @ [58] @ c'" using l2 a2n r2 by simp
  have "93 \<notin> set a" "93 \<notin> set name" using a2 a2n by simp_all
  note ok = parse_line_brackets_ok [OF line a1 this nne b]
  with res have "p = name" "s = strip c'" by simp_all
  with line a1 \<open>93 \<notin> set a\<close> \<open>93 \<notin> set name\<close> nne b show ?thesis by blast
qed

lemma parse_line_brackets_None:
  assumes "91 \<in> set line" and "93 \<in> set line"
    and "\<nexists>a name b c. line = a @ [91] @ name @ [93] @ b @ [58] @ c \<and> 91 \<notin> set a \<and> 93 \<notin> set a
           \<and> 93 \<notin> set name \<and> name \<noteq> [] \<and> 58 \<notin> set b"
  shows "parse_line line = Inr None"
proof (cases "parse_line line")
  case (Inl e)
  then show ?thesis by (simp add: parse_line_no_error)
next
  case (Inr r)
  show ?thesis
  proof (cases r)
    case None
    with Inr show ?thesis by simp
  next
    case (Some ps)
    obtain p s where "ps = (p, s)" by (cases ps)
    with Inr Some have "parse_line line = Inr (Some (p, s))" by simp
    from parse_line_brackets_SomeD [OF assms(1,2) this] assms(3) show ?thesis by blast
  qed
qed

lemma parse_line_colon:
  assumes nb: "91 \<notin> set line \<or> 93 \<notin> set line"
    and line: "line = a @ [58] @ c" and a: "58 \<notin> set a"
  shows "parse_line line = Inr (Some (strip a, strip c))"
proof -
  have c0: "(contains line [93] \<and> contains line [91]) = False"
    using nb by (auto simp add: contains_char)
  have c1: "contains line [58]" by (simp add: contains_char line)
  have f: "find_str line [58] 0 = int (length a)"
    unfolding find_str_0 line using find_aux_char_decomp [OF a, of c 0] by simp
  have s1: "slice line 0 (int (length a)) = a"
    using slice_nat [of 0 "length a" line] by (simp add: line)
  have s2: "slice_from line (int (length a) + int (length [58::nat])) = c"
  proof -
    define front where "front = a @ [58]"
    have lf: "int (length front) = int (length a) + int (length [58::nat])" by (simp add: front_def)
    have lineq: "line = front @ c" by (simp add: line front_def)
    have "slice_from line (int (length front)) = drop (length front) line"
      by (intro slice_from_nat) (simp add: lineq)
    also have "\<dots> = c" by (simp add: lineq)
    finally show ?thesis by (simp only: lf)
  qed
  have sp: "split1 line [58] = [a, c]" unfolding split1_def Let_def f s1 s2 by simp
  show ?thesis unfolding parse_line_def c0 sp using c1 by (simp add: index_def)
qed

lemma parse_line_ignored:
  assumes "91 \<notin> set line \<or> 93 \<notin> set line" and "58 \<notin> set line"
  shows "parse_line line = Inr None"
  using assms by (auto simp add: parse_line_def contains_char)

lemma parse_lines_append:
  "parse_lines (xs @ ys) d = (case parse_lines xs d of Inl e \<Rightarrow> Inl e | Inr d1 \<Rightarrow> parse_lines ys d1)"
  by (induction xs arbitrary: d) (auto split: sum.splits option.splits)

lemma parse_lines_untouched:
  "\<forall>l\<in>set ls. \<forall>s. parse_line l \<noteq> Inr (Some (p, s)) \<Longrightarrow> parse_lines ls d = Inr d' \<Longrightarrow>
   map_of d' p = map_of d p"
proof (induction ls arbitrary: d)
  case Nil
  then show ?case by simp
next
  case (Cons l ls)
  show ?case
  proof (cases "parse_line l")
    case (Inl e)
    then show ?thesis by (simp add: parse_line_no_error)
  next
    case (Inr r)
    show ?thesis
    proof (cases r)
      case None
      with Inr Cons show ?thesis by simp
    next
      case (Some qs)
      obtain q s where qs: "qs = (q, s)" by (cases qs)
      with Inr Some Cons.prems(1) have "q \<noteq> p" by auto
      moreover from Inr Some qs Cons.prems(2)
      have "parse_lines ls (AList.update q s d) = Inr d'" by simp
      moreover have "\<forall>l\<in>set ls. \<forall>s. parse_line l \<noteq> Inr (Some (p, s))"
        using Cons.prems(1) by simp
      ultimately show ?thesis using Cons.IH [of "AList.update q s d"]
        by (simp add: update_conv')
    qed
  qed
qed

lemma parse_lines_last_wins:
  assumes l: "parse_line l = Inr (Some (p, s))"
    and rest: "\<forall>l'\<in>set rest. \<forall>s'. parse_line l' \<noteq> Inr (Some (p, s'))"
  shows "\<exists>d'. parse_lines (before @ l # rest) d = Inr d' \<and> map_of d' p = Some s"
proof -
  obtain d1 where d1: "parse_lines before d = Inr d1" using parse_lines_no_error by blast
  obtain d' where d': "parse_lines rest (AList.update p s d1) = Inr d'"
    using parse_lines_no_error by blast
  have "map_of d' p = map_of (AList.update p s d1) p"
    using parse_lines_untouched [OF rest d'] .
  then have "map_of d' p = Some s" by (simp add: update_conv')
  moreover have "parse_lines (before @ l # rest) d = Inr d'"
    by (simp add: parse_lines_append d1 l d')
  ultimately show ?thesis by blast
qed

text \<open>
  C5 (as amended). For each line of the participants block: (1) when the line contains both
  a \<open>[\<close> and a \<open>]\<close>, only the bracket rule is tried: if the first \<open>]\<close> comes after the first
  \<open>[\<close> with a non-empty text between them and a \<open>:\<close> follows that \<open>]\<close>, the text between
  the brackets is the participant name and everything after the first such \<open>:\<close>, trimmed, is
  the summary; in every other case the line is ignored, also when it contains a \<open>:\<close>;
  (2) a line without the two brackets that contains a \<open>:\<close> is split at the first \<open>:\<close> into
  trimmed name and trimmed summary; (3) any other line is ignored, without error; and the
  summary stored for a name is that of the last line naming it.
\<close>

theorem parse_line_rules:
  "(line1 = a @ [91] @ name @ [93] @ b @ [58] @ c \<and> 91 \<notin> set a \<and> 93 \<notin> set a
      \<and> 93 \<notin> set name \<and> name \<noteq> [] \<and> 58 \<notin> set b
     \<longrightarrow> parse_line line1 = Inr (Some (name, strip c)))
   \<and> (91 \<in> set line2 \<and> 93 \<in> set line2
       \<and> (\<nexists>a' name' b' c'. line2 = a' @ [91] @ name' @ [93] @ b' @ [58] @ c' \<and> 91 \<notin> set a'
              \<and> 93 \<notin> set a' \<and> 93 \<notin> set name' \<and> name' \<noteq> [] \<and> 58 \<notin> set b')
     \<longrightarrow> parse_line line2 = Inr None)
   \<and> ((91 \<notin> set line3 \<or> 93 \<notin> set line3) \<and> line3 = a3 @ [58] @ c3 \<and> 58 \<notin> set a3
     \<longrightarrow> parse_line line3 = Inr (Some (strip a3, strip c3)))
   \<and> ((91 \<notin> set line4 \<or> 93 \<notin> set line4) \<and> 58 \<notin> set line4
     \<longrightarrow> parse_line line4 = Inr None)
   \<and> (parse_line l = Inr (Some (p, s))
       \<and> (\<forall>l'\<in>set rest. \<forall>s'. parse_line l' \<noteq> Inr (Some (p, s')))
     \<longrightarrow> (\<exists>d'. parse_lines (before @ l # rest) d = Inr d' \<and> map_of d' p = Some s))"
proof (intro conjI impI)
  assume "line1 = a @ [91] @ name @ [93] @ b @ [58] @ c \<and> 91 \<notin> set a \<and> 93 \<notin> set a
      \<and> 93 \<notin> set name \<and> name \<noteq> [] \<and> 58 \<notin> set b"
  then show "parse_line line1 = Inr (Some (name, strip c))"
    by (elim conjE) (rule parse_line_brackets_ok, assumption+)
next
  assume "91 \<in> set line2 \<and> 93 \<in> set line2
       \<and> (\<nexists>a' name' b' c'. line2 = a' @ [91] @ name' @ [93] @ b' @ [58] @ c' \<and> 91 \<notin> set a'
              \<and> 93 \<notin> set a' \<and> 93 \<notin> set name' \<and> name' \<noteq> [] \<and> 58 \<notin> set b')"
  then show "parse_line line2 = Inr None"
    by (elim conjE) (rule parse_line_brackets_None, assumption+)
next
  assume "(91 \<notin> set line3 \<or> 93 \<notin> set line3) \<and> line3 = a3 @ [58] @ c3 \<and> 58 \<notin> set a3"
  then show "parse_line line3 = Inr (Some (strip a3, strip c3))"
    by (elim conjE) (rule parse_line_colon, assumption+)
next
  assume "(91 \<notin> set line4 \<or> 93 \<notin> set line4) \<and> 58 \<notin> set line4"
  then show "parse_line line4 = Inr None"
    by (elim conjE) (rule parse_line_ignored, assumption+)
next
  assume "parse_line l = Inr (Some (p, s))
       \<and> (\<forall>l'\<in>set rest. \<forall>s'. parse_line l' \<noteq> Inr (Some (p, s')))"
  then show "\<exists>d'. parse_lines (before @ l # rest) d = Inr d' \<and> map_of d' p = Some s"
    by (elim conjE) (rule parse_lines_last_wins, assumption+)
qed

theorem parse_line_rules_witness:
  "parse_line (u ''[Al]: x'') = Inr (Some (u ''Al'', u ''x''))
   \<and> parse_line (u '']B[: h'') = Inr None
   \<and> parse_line (u ''Al: y'') = Inr (Some (u ''Al'', u ''y''))
   \<and> parse_line (u ''s'') = Inr None
   \<and> (\<exists>d'. parse_lines [u ''[Al]: x'', u ''Al: y''] [] = Inr d' \<and> map_of d' (u ''Al'') = Some (u ''y''))"
proof -
  have h1: "u ''[Al]: x'' = [] @ [91] @ u ''Al'' @ [93] @ [] @ [58] @ u '' x'' \<and> 91 \<notin> set []
      \<and> 93 \<notin> set [] \<and> 93 \<notin> set (u ''Al'') \<and> u ''Al'' \<noteq> [] \<and> 58 \<notin> set []"
    by (simp add: u_def)
  have h2: "91 \<in> set (u '']B[: h'') \<and> 93 \<in> set (u '']B[: h'')
       \<and> (\<nexists>a' name' b' c'. u '']B[: h'' = a' @ [91] @ name' @ [93] @ b' @ [58] @ c' \<and> 91 \<notin> set a'
              \<and> 93 \<notin> set a' \<and> 93 \<notin> set name' \<and> name' \<noteq> [] \<and> 58 \<notin> set b')"
    by (auto simp add: u_def Cons_eq_append_conv)
  have h3: "(91 \<notin> set (u ''Al: y'') \<or> 93 \<notin> set (u ''Al: y'')) \<and> u ''Al: y'' = u ''Al'' @ [58] @ u '' y''
      \<and> 58 \<notin> set (u ''Al'')"
    by (simp add: u_def)
  have h4: "(91 \<notin> set (u ''s'') \<or> 93 \<notin> set (u ''s'')) \<and> 58 \<notin> set (u ''s'')"
    by (simp add: u_def)
  have st: "strip (u '' x'') = u ''x''" "strip (u '' y'') = u ''y''" "strip (u ''Al'') = u ''Al''"
    by (simp_all add: strip_def strip_with_def isspace_def u_def)
  note T = parse_line_rules [where ?line1.0 = "u ''[Al]: x''" and a = "[]" and name = "u ''Al''"
      and b = "[]" and c = "u '' x''" and ?line2.0 = "u '']B[: h''" and ?line3.0 = "u ''Al: y''"
      and ?a3.0 = "u ''Al''" and ?c3.0 = "u '' y''" and ?line4.0 = "u ''s''" and l = "u ''Al: y''"
      and p = "u ''Al''" and s = "u ''y''" and rest = "[]" and before = "[u ''[Al]: x'']" and d = "[]"]
  from T h1 have 1: "parse_line (u ''[Al]: x'') = Inr (Some (u ''Al'', u ''x''))"
    unfolding st by blast
  from T h2 have 2: "parse_line (u '']B[: h'') = Inr None" by blast
  from T h3 have 3: "parse_line (u ''Al: y'') = Inr (Some (u ''Al'', u ''y''))"
    unfolding st by blast
  from T h4 have 4: "parse_line (u ''s'') = Inr None" by blast
  have h5: "parse_line (u ''Al: y'') = Inr (Some (u ''Al'', u ''y''))
       \<and> (\<forall>l'\<in>set []. \<forall>s'. parse_line l' \<noteq> Inr (Some (u ''Al'', s')))"
    using 3 by simp
  from T h5 have 5: "\<exists>d'. parse_lines ([u ''[Al]: x''] @ u ''Al: y'' # []) [] = Inr d'
      \<and> map_of d' (u ''Al'') = Some (u ''y'')" by blast
  from 1 2 3 4 5 show ?thesis by simp
qed

text \<open>
  C5 as stated fails: in \<open>]Bob[: hi\<close> the brackets are not in left-to-right order, so the
  stated rules split the line at its \<open>:\<close>; the code, having seen both brackets, ignores it.
\<close>

theorem parse_line_bracket_order_counterexample:
  "parse_line (u '']Bob[: hi'') = Inr None
   \<and> spec_parse_line (u '']Bob[: hi'') = Some (u '']Bob['', u ''hi'')"
  by (simp add: parse_line_def spec_parse_line_def contains_def find_str_def adjust_index_def
        slice_def slice_from_def strip_def strip_with_def isspace_def u_def Let_def)

subsection \<open>The date range and the call to the model\<close>

lemma analyze_fetched_date_range:
  "res_date_range (fst (analyze_fetched env lower messages title targets model unread))
     = get_date_range (fst (filter_and_extend_messages lower messages targets))"
  by (simp add: analyze_fetched_def Let_def split: prod.splits)

text \<open>
  C8. The date range of the result is computed from the filtered messages, not from the
  extended ones: earliest is the timestamp of the last filtered message, latest that of the
  first, and both are \<open>None\<close> when there is no filtered message.
\<close>

theorem date_range_from_filtered:
  "get_date_range [] = \<lparr>earliest = None, latest = None\<rparr>
   \<and> (filtered_messages \<noteq> [] \<longrightarrow>
        get_date_range filtered_messages =
          \<lparr>earliest = Some (timestamp (last filtered_messages)),
           latest = Some (timestamp (hd filtered_messages))\<rparr>)
   \<and> res_date_range (fst (analyze_fetched env lower messages title targets model unread))
        = get_date_range (fst (filter_and_extend_messages lower messages targets))"
  using analyze_fetched_date_range by (simp add: get_date_range_def)

theorem date_range_from_filtered_witness:
  "get_date_range [msg_bob, msg_carol]
     = \<lparr>earliest = Some (u ''10:01''), latest = Some (u ''10:02'')\<rparr>
   \<and> snd (filter_and_extend_messages ascii_lower [msg_bob, msg_carol, msg_alice]
            (Some [TStr (u ''@bob'')])) = [msg_bob, msg_alice]
   \<and> res_date_range (fst (analyze_fetched env_ok ascii_lower [msg_bob, msg_carol, msg_alice]
        (u ''chat'') (Some [TStr (u ''@bob'')]) (u ''m'') None))
     = \<lparr>earliest = Some (u ''10:02''), latest = Some (u ''10:02'')\<rparr>"
proof -
  have ne: "[msg_bob, msg_carol] \<noteq> []" by simp
  have f: "filter_and_extend_messages ascii_lower [msg_bob, msg_carol, msg_alice]
            (Some [TStr (u ''@bob'')]) = ([msg_bob], [msg_bob, msg_alice])" by code_simp
  have t: "timestamp msg_bob = u ''10:02''" "timestamp msg_carol = u ''10:01''"
    by (simp_all add: msg_bob_def msg_carol_def)
  have g: "get_date_range [msg_bob] = \<lparr>earliest = Some (u ''10:02''), latest = Some (u ''10:02'')\<rparr>"
    by (simp add: get_date_range_def t)
  show ?thesis
    using date_range_from_filtered [of "[msg_bob, msg_carol]" env_ok ascii_lower
        "[msg_bob, msg_carol, msg_alice]" "u ''chat''" "Some [TStr (u ''@bob'')]" "u ''m''" None]
      ne f g t by simp
qed

lemma generate_summaries_calls:
  "snd (generate_summaries env extended_messages participants model) =
     (case format_prompt env
             (if map fst participants \<noteq> [] then join (u '', '') (map fst participants)
              else u ''None'')
             (all_messages_text extended_messages) of
        Inl e \<Rightarrow> []
      | Inr prompt \<Rightarrow> [(all_messages_text extended_messages, model, prompt)])"
  by (simp add: generate_summaries_def Let_def split: sum.splits)

lemma analyze_fetched_calls:
  "snd (analyze_fetched env lower messages title targets model unread) =
     (let extended_messages = snd (filter_and_extend_messages lower messages targets)
      in if extended_messages \<noteq> []
         then snd (generate_summaries env extended_messages
                     (organize_by_participant extended_messages) model)
         else [])"
  by (simp add: analyze_fetched_def Let_def split: prod.splits)

text \<open>
  C9 (as amended). After the messages are fetched, the model is called at most once per
  request, with the whole transcript (never once per participant): exactly once when the
  extended message list is not empty and the prompt was built, and not at all when the
  extended message list is empty.
\<close>

theorem summarization_called_at_most_once:
  "length (snd (analyze_fetched env lower messages title targets model unread)) \<le> 1
   \<and> (snd (filter_and_extend_messages lower messages targets) = [] \<longrightarrow>
        snd (analyze_fetched env lower messages title targets model unread) = [])
   \<and> (snd (filter_and_extend_messages lower messages targets) = extended_messages
        \<and> extended_messages \<noteq> []
        \<and> map fst (organize_by_participant extended_messages) = participant_names
        \<and> format_prompt env
             (if participant_names \<noteq> [] then join (u '', '') participant_names else u ''None'')
             (all_messages_text extended_messages) = Inr prompt
      \<longrightarrow> snd (analyze_fetched env lower messages title targets model unread)
            = [(all_messages_text extended_messages, model, prompt)])"
  by (auto simp add: analyze_fetched_calls generate_summaries_calls Let_def split: sum.splits)

theorem summarization_called_at_most_once_witness:
  "snd (analyze_fetched env_ok ascii_lower [msg_alice] (u ''chat'') (Some [TStr (u ''nobody'')])
          (u ''m'') None) = []
   \<and> snd (analyze_fetched env_ok ascii_lower [msg_alice] (u ''chat'') None (u ''m'') None)
       = [(u ''[10:00] @alice: ok?'', u ''m'', u ''@alice\<newline>[10:00] @alice: ok?'')]"
proof -
  have e: "snd (filter_and_extend_messages ascii_lower [msg_alice] (Some [TStr (u ''nobody'')])) = []"
    by code_simp
  have f: "snd (filter_and_extend_messages ascii_lower [msg_alice] None) = [msg_alice]"
    by (simp add: filter_and_extend_messages_def)
  have o: "map fst (organize_by_participant [msg_alice]) = [u ''@alice'']"
    by (simp add: organize_by_participant_def msg_alice_def)
  have t: "all_messages_text [msg_alice] = u ''[10:00] @alice: ok?''"
    by (simp add: all_messages_text_def all_formatted_messages_def format_message_def
          msg_alice_def u_def)
  have p: "format_prompt env_ok
             (if [u ''@alice''] \<noteq> [] then join (u '', '') [u ''@alice''] else u ''None'')
             (all_messages_text [msg_alice]) = Inr (u ''@alice\<newline>[10:00] @alice: ok?'')"
    by (simp add: env_ok_def t) (simp add: u_def)
  from summarization_called_at_most_once [of env_ok ascii_lower "[msg_alice]" "u ''chat''"
      "Some [TStr (u ''nobody'')]" "u ''m''" None] e
  have 1: "snd (analyze_fetched env_ok ascii_lower [msg_alice] (u ''chat'')
                 (Some [TStr (u ''nobody'')]) (u ''m'') None) = []" by blast
  from summarization_called_at_most_once [of env_ok ascii_lower "[msg_alice]" "u ''chat''"
      None "u ''m''" None "[msg_alice]" "[u ''@alice'']" "u ''@alice\<newline>[10:00] @alice: ok?''"] f o p
  have 2: "snd (analyze_fetched env_ok ascii_lower [msg_alice] (u ''chat'') None (u ''m'') None)
       = [(all_messages_text [msg_alice], u ''m'', u ''@alice\<newline>[10:00] @alice: ok?'')]"
    by simp
  from 1 2 t show ?thesis by simp
qed

text \<open>
  C9 as stated fails: with one fetched message and a target that matches nobody, the
  request goes on past the fetch and the model is not called.
\<close>

theorem summarization_zero_calls_counterexample:
  "length (snd (analyze_fetched env_ok ascii_lower [msg_alice] (u ''chat'')
                  (Some [TStr (u ''nobody'')]) (u ''m'') None)) \<noteq> 1"
proof -
  have "snd (filter_and_extend_messages ascii_lower [msg_alice] (Some [TStr (u ''nobody'')])) = []"
    by code_simp
  then show ?thesis by (simp add: analyze_fetched_calls)
qed

subsection \<open>The transcript\<close>

lemma split_on_no_sep: "sep \<notin> set x \<Longrightarrow> split_on sep x = [x]"
  by (induction x) auto

lemma split_on_append_sep: "sep \<notin> set x \<Longrightarrow> split_on sep (x @ sep # r) = x # split_on sep r"
  by (induction x) auto

lemma split_on_join:
  "xs \<noteq> [] \<Longrightarrow> \<forall>x\<in>set xs. sep \<notin> set x \<Longrightarrow> split_on sep (join [sep] xs) = xs"
proof (induction "[sep]" xs rule: join.induct)
  case 1
  then show ?case by simp
next
  case (2 x)
  then show ?case by (simp add: split_on_no_sep)
next
  case (3 x y ys)
  then show ?case by (simp add: split_on_append_sep)
qed

text \<open>
  C7 (as amended). The transcript is built from the messages sorted by \<open>datetime\<close>,
  ascending, by a stable sort (messages with equal \<open>datetime\<close> keep their input order); each
  message gives one entry, \<open>[timestamp] sender: text\<close>, or
  \<open>[timestamp] sender shared content originally by source: text\<close> when it is forwarded;
  there are as many entries as messages, and the transcript is the entries joined by
  newlines. When the list is not empty and no entry contains a newline, the lines of the
  transcript are exactly the entries, so that its line count is the message count.
\<close>

theorem transcript_entries_sorted_stable:
  "(\<exists>sorted_messages.
       all_formatted_messages messages = map format_message sorted_messages
       \<and> length sorted_messages = length messages
       \<and> set sorted_messages = set messages
       \<and> sorted (map datetime sorted_messages)
       \<and> (\<forall>k. filter (\<lambda>m. datetime m = k) sorted_messages = filter (\<lambda>m. datetime m = k) messages))
   \<and> length (all_formatted_messages messages) = length messages
   \<and> all_messages_text messages = join [10] (all_formatted_messages messages)
   \<and> (\<not> is_forwarded msg \<longrightarrow>
        format_message msg
          = u ''['' @ timestamp msg @ u ''] '' @ sender_name msg @ u '': '' @ msg_text msg)
   \<and> (is_forwarded msg \<and> forwarded_from msg = Some source \<longrightarrow>
        format_message msg
          = u ''['' @ timestamp msg @ u ''] '' @ sender_name msg
              @ u '' shared content originally by '' @ source @ u '': '' @ msg_text msg)
   \<and> (messages \<noteq> [] \<and> (\<forall>m\<in>set messages. 10 \<notin> set (format_message m)) \<longrightarrow>
        split_on 10 (all_messages_text messages) = all_formatted_messages messages)"
proof -
  have 1: "\<exists>sorted_messages.
       all_formatted_messages messages = map format_message sorted_messages
       \<and> length sorted_messages = length messages
       \<and> set sorted_messages = set messages
       \<and> sorted (map datetime sorted_messages)
       \<and> (\<forall>k. filter (\<lambda>m. datetime m = k) sorted_messages = filter (\<lambda>m. datetime m = k) messages)"
    by (intro exI [of _ "sort_key datetime messages"])
       (simp add: all_formatted_messages_def sort_key_stable)
  have 2: "messages \<noteq> [] \<and> (\<forall>m\<in>set messages. 10 \<notin> set (format_message m)) \<longrightarrow>
        split_on 10 (all_messages_text messages) = all_formatted_messages messages"
  proof
    assume h: "messages \<noteq> [] \<and> (\<forall>m\<in>set messages. 10 \<notin> set (format_message m))"
    then have "length (all_formatted_messages messages) \<noteq> 0"
      by (simp add: all_formatted_messages_def)
    then have "all_formatted_messages messages \<noteq> []" by (simp only: length_0_conv not_False_eq_True)
    moreover have "\<forall>x\<in>set (all_formatted_messages messages). 10 \<notin> set x"
      using h by (auto simp add: all_formatted_messages_def)
    ultimately show "split_on 10 (all_messages_text messages) = all_formatted_messages messages"
      unfolding all_messages_text_def by (rule split_on_join)
  qed
  have 3: "length (all_formatted_messages messages) = length messages"
    by (simp add: all_formatted_messages_def)
  have 4: "is_forwarded msg \<and> forwarded_from msg = Some source \<longrightarrow>
        format_message msg
          = u ''['' @ timestamp msg @ u ''] '' @ sender_name msg
              @ u '' shared content originally by '' @ source @ u '': '' @ msg_text msg"
    by (simp add: format_message_def str_opt_def)
  have 5: "\<not> is_forwarded msg \<longrightarrow>
        format_message msg
          = u ''['' @ timestamp msg @ u ''] '' @ sender_name msg @ u '': '' @ msg_text msg"
    by (simp add: format_message_def)
  from 1 2 3 4 5 show ?thesis by (simp only: all_messages_text_def simp_thms)
qed

theorem transcript_entries_sorted_stable_witness:
  "format_message msg_alice = u ''[10:00] @alice: ok?''
   \<and> format_message msg_carol = u ''[10:01] Carol shared content originally by Feed: news''
   \<and> split_on 10 (all_messages_text [msg_carol, msg_alice])
       = [format_message msg_alice, format_message msg_carol]"
proof -
  have a: "\<not> is_forwarded msg_alice" by (simp add: msg_alice_def)
  have c: "is_forwarded msg_carol \<and> forwarded_from msg_carol = Some (u ''Feed'')"
    by (simp add: msg_carol_def)
  have fa: "u ''['' @ timestamp msg_alice @ u ''] '' @ sender_name msg_alice @ u '': ''
              @ msg_text msg_alice = u ''[10:00] @alice: ok?''"
    by (simp add: msg_alice_def u_def)
  have fc: "u ''['' @ timestamp msg_carol @ u ''] '' @ sender_name msg_carol
              @ u '' shared content originally by '' @ u ''Feed'' @ u '': '' @ msg_text msg_carol
            = u ''[10:01] Carol shared content originally by Feed: news''"
    by (simp add: msg_carol_def u_def)
  note T1 = transcript_entries_sorted_stable [of "[msg_carol, msg_alice]" msg_alice]
  note T2 = transcript_entries_sorted_stable [of "[msg_carol, msg_alice]" msg_carol "u ''Feed''"]
  from T1 a fa have 1: "format_message msg_alice = u ''[10:00] @alice: ok?''" by simp
  from T2 c fc have 2: "format_message msg_carol
      = u ''[10:01] Carol shared content originally by Feed: news''" by simp
  have n: "[msg_carol, msg_alice] \<noteq> []
      \<and> (\<forall>m\<in>set [msg_carol, msg_alice]. 10 \<notin> set (format_message m))"
    using 1 2 by (simp add: u_def)
  have s: "all_formatted_messages [msg_carol, msg_alice]
             = [format_message msg_alice, format_message msg_carol]"
    by (simp add: all_formatted_messages_def msg_carol_def msg_alice_def u_def)
  from T1 n have "split_on 10 (all_messages_text [msg_carol, msg_alice])
      = all_formatted_messages [msg_carol, msg_alice]" by blast
  with 1 2 s show ?thesis by simp
qed

text \<open>
  C7 as stated fails: one message whose text has two lines gives a transcript of two lines.
\<close>

theorem transcript_line_count_counterexample:
  "length (split_on 10 (all_messages_text [msg_two_lines])) = 2 \<and> length [msg_two_lines] = 1"
  by (simp add: all_messages_text_def all_formatted_messages_def format_message_def
        msg_two_lines_def u_def)

subsection \<open>Trader names\<close>

lemma strip_with_empty_iff: "strip_with p s = [] \<longleftrightarrow> (\<forall>c\<in>set s. p c)"
proof
  assume "strip_with p s = []"
  then have "\<forall>x\<in>set (dropWhile p s). p x" by (simp add: strip_with_def dropWhile_eq_Nil_conv)
  then have "dropWhile p s = []" using hd_dropWhile [of p s] by (cases "dropWhile p s") auto
  then show "\<forall>c\<in>set s. p c" by (simp add: dropWhile_eq_Nil_conv)
next
  assume "\<forall>c\<in>set s. p c"
  then have d: "dropWhile p s = []" by (simp add: dropWhile_eq_Nil_conv)
  show "strip_with p s = []" unfolding strip_with_def d by simp
qed

lemma strip_with_id:
  assumes "w \<noteq> []" and "\<forall>c\<in>set w. \<not> p c"
  shows "strip_with p w = w"
proof -
  from assms have 1: "dropWhile p w = w" by (cases w) auto
  from assms have "rev w \<noteq> []" "\<forall>c\<in>set (rev w). \<not> p c" by simp_all
  then have 2: "dropWhile p (rev w) = rev w" by (cases "rev w") auto
  show ?thesis by (simp add: strip_with_def 1 2)
qed

lemma split_ws_aux_empty_iff:
  "split_ws_aux cur s = [] \<longleftrightarrow> cur = [] \<and> (\<forall>c\<in>set s. isspace c)"
  by (induction s arbitrary: cur) auto

lemma split_ws_aux_tokens:
  "\<forall>c\<in>set cur. \<not> isspace c \<Longrightarrow> w \<in> set (split_ws_aux cur s) \<Longrightarrow>
   w \<noteq> [] \<and> (\<forall>c\<in>set w. \<not> isspace c)"
proof (induction s arbitrary: cur)
  case Nil
  then show ?case by (auto split: if_splits)
next
  case (Cons c s)
  show ?case
  proof (cases "isspace c")
    case True
    with Cons.prems have "w = cur \<and> cur \<noteq> [] \<or> w \<in> set (split_ws_aux [] s)"
      by (auto split: if_splits)
    then show ?thesis
    proof
      assume "w = cur \<and> cur \<noteq> []"
      with Cons.prems(1) show ?thesis by simp
    next
      assume "w \<in> set (split_ws_aux [] s)"
      then show ?thesis using Cons.IH [of "[]"] by simp
    qed
  next
    case False
    with Cons.prems have "w \<in> set (split_ws_aux (cur @ [c]) s)" by simp
    moreover have "\<forall>x\<in>set (cur @ [c]). \<not> isspace x" using Cons.prems(1) False by simp
    ultimately show ?thesis using Cons.IH [of "cur @ [c]"] by blast
  qed
qed

lemma strip_nonempty_split_ws: "strip s \<noteq> [] \<Longrightarrow> split_ws s \<noteq> []"
  by (simp add: strip_def split_ws_def strip_with_empty_iff split_ws_aux_empty_iff)

lemma split_ws_first_token:
  assumes "split_ws s = w # ws"
  shows "strip s \<noteq> [] \<and> w \<noteq> [] \<and> strip w = w"
proof -
  from assms have "split_ws_aux [] s \<noteq> []" by (simp add: split_ws_def)
  then have 1: "strip s \<noteq> []"
    by (simp add: strip_def strip_with_empty_iff split_ws_aux_empty_iff)
  from assms have "w \<in> set (split_ws_aux [] s)" by (simp add: split_ws_def)
  then have 2: "w \<noteq> [] \<and> (\<forall>c\<in>set w. \<not> isspace c)"
    using split_ws_aux_tokens [of "[]" w s] by simp
  then have "strip w = w" unfolding strip_def by (intro strip_with_id) simp_all
  with 1 2 show ?thesis by simp
qed

lemma extract_trader_name_no_error: "extract_trader_name t \<noteq> Inl e"
  by (auto simp add: extract_trader_name_def Let_def index_def
        dest: strip_nonempty_split_ws split: sum.splits if_splits)

lemma contains_from_marker_money: "contains t from_marker \<Longrightarrow> 128176 \<in> set t"
proof -
  assume "contains t from_marker"
  then obtain n where "prefix from_marker (drop n t)" unfolding contains_iff by blast
  then have "set from_marker \<subseteq> set (drop n t)" by (rule set_mono_prefix)
  moreover have "128176 \<in> set from_marker" by (simp add: from_marker_def)
  ultimately have "128176 \<in> set (drop n t)" by blast
  then show ?thesis by (rule in_set_dropD)
qed

lemma extract_between_markers:
  assumes t: "t = a @ [128176] @ name @ [12304] @ b"
    and a: "128176 \<notin> set a" "12304 \<notin> set a" and name: "12304 \<notin> set name" "strip name \<noteq> []"
  shows "extract_trader_name t = Inr (Some (strip name))"
proof -
  have nne: "name \<noteq> []" using name(2) by (auto simp add: strip_def strip_with_def)
  have c: "contains t [128176]" "contains t [12304]" by (simp_all add: contains_char t)
  have f1: "find_str t [128176] 0 = int (length a)"
    unfolding find_str_0 t using find_aux_char_decomp [OF a(1), of _ 0] by simp
  have "12304 \<notin> set (a @ [128176] @ name)" using a(2) name(1) by simp
  from find_aux_char_decomp [OF this, of b 0]
  have f2: "find_str t [12304] 0 = int (length a + 1 + length name)" unfolding find_str_0 t by simp
  have sl: "slice t (int (length a + 1)) (int (length a + 1 + length name)) = name"
  proof -
    have "slice t (int (length a + 1)) (int (length a + 1 + length name))
            = take (length a + 1 + length name - (length a + 1)) (drop (length a + 1) t)"
      by (intro slice_nat) (simp_all add: t)
    then show ?thesis by (simp add: t)
  qed
  have e1: "find_str t [128176] 0 + 1 = int (length a + 1)" using f1 by simp
  have gt: "0 < int (length a + 1) \<and> int (length a + 1) < int (length a + 1 + length name)"
    using nne by simp
  show ?thesis
    unfolding extract_trader_name_def Let_def e1 f2 sl using c gt name(2) by simp
qed

lemma extract_after_prefix_parts:
  assumes no: "12304 \<notin> set t" and t: "t = a @ from_marker @ rest"
    and first: "\<forall>i<length a. \<not> prefix from_marker (drop i t)"
  shows "contains t from_marker" and "split1 t from_marker = [a, rest]"
proof -
  have f: "find_str t from_marker 0 = int (length a)"
    unfolding find_str_0 using find_aux_first [of a from_marker rest 0] first t by simp
  then show "contains t from_marker" by (simp add: contains_def)
  have s1: "slice t 0 (int (length a)) = a"
    using slice_nat [of 0 "length a" t] by (simp add: t)
  have s2: "slice_from t (int (length a) + int (length from_marker)) = rest"
  proof -
    define front where "front = a @ from_marker"
    have lf: "int (length front) = int (length a) + int (length from_marker)"
      by (simp add: front_def)
    have teq: "t = front @ rest" by (simp add: t front_def)
    have "slice_from t (int (length front)) = drop (length front) t"
      by (intro slice_from_nat) (simp add: teq)
    also have "\<dots> = rest" by (simp add: teq)
    finally show ?thesis by (simp only: lf)
  qed
  show "split1 t from_marker = [a, rest]" unfolding split1_def Let_def f s1 s2 by simp
qed

lemma extract_after_prefix:
  assumes no: "12304 \<notin> set t" and t: "t = a @ from_marker @ rest"
    and first: "\<forall>i<length a. \<not> prefix from_marker (drop i t)"
  shows "extract_trader_name t = Inr (case split_ws rest of [] \<Rightarrow> None | w # ws \<Rightarrow> Some w)"
proof -
  note p = extract_after_prefix_parts [OF assms]
  have c0: "(contains t [128176] \<and> contains t [12304]) = False" using no by (simp add: contains_char)
  show ?thesis
  proof (cases "split_ws rest")
    case Nil
    then have "strip rest = []" using strip_nonempty_split_ws by blast
    then show ?thesis
      unfolding extract_trader_name_def c0 Let_def p(2) using p(1) Nil by (simp add: index_def)
  next
    case (Cons w ws)
    from split_ws_first_token [OF this] have "strip rest \<noteq> []" "w \<noteq> []" "strip w = w" by simp_all
    then show ?thesis
      unfolding extract_trader_name_def c0 Let_def p(2) using p(1) Cons by (simp add: index_def)
  qed
qed

lemma extract_no_marker: "128176 \<notin> set t \<Longrightarrow> extract_trader_name t = Inr None"
  using contains_from_marker_money [of t] by (auto simp add: extract_trader_name_def contains_char)

lemma collect_trader_names_set:
  "set (collect_trader_names body ms acc) = set acc \<union> {n. \<exists>m\<in>set ms. body m = Inr (Some n)}"
proof (induction ms arbitrary: acc)
  case Nil
  show ?case by simp
next
  case (Cons m ms)
  show ?case
  proof (cases "body m")
    case (Inl e)
    then show ?thesis using Cons.IH [of acc] by auto
  next
    case (Inr r)
    then show ?thesis
      using Cons.IH [of acc] Cons.IH [of "List.insert (the r) acc"] by (cases r) auto
  qed
qed

lemma collect_trader_names_distinct:
  "distinct acc \<Longrightarrow> distinct (collect_trader_names body ms acc)"
  by (induction ms arbitrary: acc) (auto split: sum.splits option.splits)

lemma collect_trader_names_skip:
  "body m = Inl e \<Longrightarrow>
   collect_trader_names body (before @ m # after) acc = collect_trader_names body (before @ after) acc"
  by (induction before arbitrary: acc) (auto split: sum.splits option.splits)

lemma extract_markers_SomeD:
  assumes m: "128176 \<in> set t" and o: "12304 \<in> set t"
    and res: "extract_trader_name t = Inr (Some n)"
  shows "\<exists>a name b. t = a @ [128176] @ name @ [12304] @ b \<and> 128176 \<notin> set a \<and> 12304 \<notin> set a
           \<and> 12304 \<notin> set name \<and> strip name \<noteq> [] \<and> n = strip name"
proof -
  from m obtain a r1 where l1: "t = a @ 128176 # r1" and a1: "128176 \<notin> set a"
    by (auto dest: split_list_first)
  from o obtain a2 r2 where l2: "t = a2 @ 12304 # r2" and a2: "12304 \<notin> set a2"
    by (auto dest: split_list_first)
  have f1: "find_str t [128176] 0 = int (length a)"
    unfolding find_str_0 using find_aux_char_decomp [OF a1, of r1 0] l1 by simp
  have f2: "find_str t [12304] 0 = int (length a2)"
    unfolding find_str_0 using find_aux_char_decomp [OF a2, of r2 0] l2 by simp
  have c: "contains t [128176] \<and> contains t [12304]" using m o by (simp add: contains_char)
  from res c have gt: "find_str t [12304] 0 > find_str t [128176] 0 + 1"
    and sn: "strip (slice t (find_str t [128176] 0 + 1) (find_str t [12304] 0)) \<noteq> []"
    and n: "n = strip (slice t (find_str t [128176] 0 + 1) (find_str t [12304] 0))"
    by (auto simp add: extract_trader_name_def Let_def split: if_splits)
  from gt f1 f2 have lt: "length a + 1 < length a2" by simp
  have "take (length a2) t = a2" using l2 by simp
  moreover have "take (length a2) t = a @ 128176 # take (length a2 - length a - 1) r1"
    using lt by (simp add: l1 take_Cons')
  ultimately have a2eq: "a2 = a @ 128176 # take (length a2 - length a - 1) r1" by simp
  define name where "name = take (length a2 - length a - 1) r1"
  have a2n: "a2 = a @ 128176 # name" using a2eq name_def by simp
  have t: "t = a @ [128176] @ name @ [12304] @ r2" using l2 a2n by simp
  have la2: "length a2 = length a + 1 + length name" using arg_cong [OF a2n, of length] by simp
  have e1: "find_str t [128176] 0 + 1 = int (length a + 1)" using f1 by simp
  have sl: "slice t (int (length a + 1)) (int (length a2)) = name"
  proof -
    have "slice t (int (length a + 1)) (int (length a2))
            = take (length a2 - (length a + 1)) (drop (length a + 1) t)"
      using lt by (intro slice_nat) (simp_all add: l2)
    then show ?thesis by (simp add: t la2)
  qed
  have "strip name \<noteq> []" "n = strip name" using sn n unfolding e1 f2 sl by simp_all
  moreover have "12304 \<notin> set a" "12304 \<notin> set name" using a2 a2n by simp_all
  ultimately show ?thesis using t a1 by blast
qed

lemma extract_markers_None:
  assumes "128176 \<in> set t" and "12304 \<in> set t"
    and "\<nexists>a name b. t = a @ [128176] @ name @ [12304] @ b \<and> 128176 \<notin> set a \<and> 12304 \<notin> set a
           \<and> 12304 \<notin> set name \<and> strip name \<noteq> []"
  shows "extract_trader_name t = Inr None"
proof (cases "extract_trader_name t")
  case (Inl e)
  then show ?thesis by (simp add: extract_trader_name_no_error)
next
  case (Inr r)
  show ?thesis
  proof (cases r)
    case None
    with Inr show ?thesis by simp
  next
    case (Some n)
    with Inr have "extract_trader_name t = Inr (Some n)" by simp
    from extract_markers_SomeD [OF assms(1,2) this] assms(3) show ?thesis by blast
  qed
qed

lemma extract_no_prefix:
  "12304 \<notin> set t \<Longrightarrow> \<not> contains t from_marker \<Longrightarrow> extract_trader_name t = Inr None"
  by (simp add: extract_trader_name_def contains_char)

text \<open>
  C10 (as amended). The trader names of a message list are collected by two conventions,
  tried in this order. (1) A text that contains both U+1F4B0 and U+3010 is only read by the
  first convention: when the first U+3010 comes after the first U+1F4B0 and the text between
  them, trimmed, is not empty, that trimmed text is the name; otherwise the message gives no
  name, also when it contains the prefix token. (2) A text without U+3010 that contains the
  prefix token \<open>from: \<close> with U+1F4B0 gives the first white-space-delimited token after the
  first occurrence of the prefix token, and no name when only white space follows. (3) Every
  other text gives no name. The names are kept without repetition and sorted
  lexicographically. The extraction raises nothing on a string; and whatever the body of the
  \<open>try\<close> does, a message on which it raises is skipped and the other messages are
  processed as if it were not there.
\<close>

theorem trader_names_extraction:
  "set (trader_names messages)
     = {n. \<exists>m\<in>set messages. extract_trader_name (msg_text m) = Inr (Some n)}
   \<and> sorted (trader_names messages) \<and> distinct (trader_names messages)
   \<and> (t1 = a @ [128176] @ name @ [12304] @ b \<and> 128176 \<notin> set a \<and> 12304 \<notin> set a
        \<and> 12304 \<notin> set name \<and> strip name \<noteq> []
      \<longrightarrow> extract_trader_name t1 = Inr (Some (strip name)))
   \<and> (128176 \<in> set t4 \<and> 12304 \<in> set t4
        \<and> (\<nexists>a' name' b'. t4 = a' @ [128176] @ name' @ [12304] @ b' \<and> 128176 \<notin> set a'
               \<and> 12304 \<notin> set a' \<and> 12304 \<notin> set name' \<and> strip name' \<noteq> [])
      \<longrightarrow> extract_trader_name t4 = Inr None)
   \<and> (12304 \<notin> set t2 \<and> t2 = a2 @ from_marker @ rest
        \<and> (\<forall>i<length a2. \<not> prefix from_marker (drop i t2)) \<and> split_ws rest = w # ws
      \<longrightarrow> extract_trader_name t2 = Inr (Some w))
   \<and> (12304 \<notin> set t5 \<and> t5 = a5 @ from_marker @ rest5
        \<and> (\<forall>i<length a5. \<not> prefix from_marker (drop i t5)) \<and> split_ws rest5 = []
      \<longrightarrow> extract_trader_name t5 = Inr None)
   \<and> (12304 \<notin> set t6 \<and> \<not> contains t6 from_marker \<longrightarrow> extract_trader_name t6 = Inr None)
   \<and> (128176 \<notin> set t3 \<longrightarrow> extract_trader_name t3 = Inr None)
   \<and> extract_trader_name t \<noteq> Inl e
   \<and> (body m = Inl e \<longrightarrow>
        collect_trader_names body (before @ m # after) acc
          = collect_trader_names body (before @ after) acc)"
proof -
  have 1: "set (trader_names messages)
     = {n. \<exists>m\<in>set messages. extract_trader_name (msg_text m) = Inr (Some n)}"
    by (simp add: trader_names_def collect_trader_names_set)
  have 2: "sorted (trader_names messages) \<and> distinct (trader_names messages)"
    by (simp add: trader_names_def collect_trader_names_distinct)
  have 3: "t1 = a @ [128176] @ name @ [12304] @ b \<and> 128176 \<notin> set a \<and> 12304 \<notin> set a
        \<and> 12304 \<notin> set name \<and> strip name \<noteq> []
      \<longrightarrow> extract_trader_name t1 = Inr (Some (strip name))"
    using extract_between_markers by blast
  have 4: "12304 \<notin> set t2 \<and> t2 = a2 @ from_marker @ rest
        \<and> (\<forall>i<length a2. \<not> prefix from_marker (drop i t2)) \<and> split_ws rest = w # ws
      \<longrightarrow> extract_trader_name t2 = Inr (Some w)"
  proof
    assume h: "12304 \<notin> set t2 \<and> t2 = a2 @ from_marker @ rest
        \<and> (\<forall>i<length a2. \<not> prefix from_marker (drop i t2)) \<and> split_ws rest = w # ws"
    then have "extract_trader_name t2
        = Inr (case split_ws rest of [] \<Rightarrow> None | w # ws \<Rightarrow> Some w)"
      by (elim conjE) (rule extract_after_prefix, assumption+)
    with h show "extract_trader_name t2 = Inr (Some w)" by simp
  qed
  have 5: "128176 \<notin> set t3 \<longrightarrow> extract_trader_name t3 = Inr None"
    using extract_no_marker by blast
  have 6: "body m = Inl e \<longrightarrow>
        collect_trader_names body (before @ m # after) acc
          = collect_trader_names body (before @ after) acc"
    using collect_trader_names_skip by blast
  have 7: "128176 \<in> set t4 \<and> 12304 \<in> set t4
        \<and> (\<nexists>a' name' b'. t4 = a' @ [128176] @ name' @ [12304] @ b' \<and> 128176 \<notin> set a'
               \<and> 12304 \<notin> set a' \<and> 12304 \<notin> set name' \<and> strip name' \<noteq> [])
      \<longrightarrow> extract_trader_name t4 = Inr None"
  proof
    assume "128176 \<in> set t4 \<and> 12304 \<in> set t4
        \<and> (\<nexists>a' name' b'. t4 = a' @ [128176] @ name' @ [12304] @ b' \<and> 128176 \<notin> set a'
               \<and> 12304 \<notin> set a' \<and> 12304 \<notin> set name' \<and> strip name' \<noteq> [])"
    then show "extract_trader_name t4 = Inr None"
      by (elim conjE) (rule extract_markers_None, assumption+)
  qed
  have 8: "12304 \<notin> set t5 \<and> t5 = a5 @ from_marker @ rest5
        \<and> (\<forall>i<length a5. \<not> prefix from_marker (drop i t5)) \<and> split_ws rest5 = []
      \<longrightarrow> extract_trader_name t5 = Inr None"
  proof
    assume h: "12304 \<notin> set t5 \<and> t5 = a5 @ from_marker @ rest5
        \<and> (\<forall>i<length a5. \<not> prefix from_marker (drop i t5)) \<and> split_ws rest5 = []"
    then have "extract_trader_name t5
        = Inr (case split_ws rest5 of [] \<Rightarrow> None | w # ws \<Rightarrow> Some w)"
      by (elim conjE) (rule extract_after_prefix, assumption+)
    with h show "extract_trader_name t5 = Inr None" by simp
  qed
  have 9: "12304 \<notin> set t6 \<and> \<not> contains t6 from_marker \<longrightarrow> extract_trader_name t6 = Inr None"
    using extract_no_prefix by blast
  from 1 2 3 4 5 6 7 8 9 extract_trader_name_no_error [of t e]
  show ?thesis by (simp only: simp_thms)
qed

theorem trader_names_extraction_witness:
  "set (trader_names [msg_trade_a, msg_trade_b, msg_trade_c]) = {u ''Amy'', u ''Zed''}
   \<and> extract_trader_name (msg_text msg_trade_a) = Inr (Some (u ''Zed''))
   \<and> extract_trader_name (msg_text msg_trade_b) = Inr (Some (u ''Amy''))
   \<and> extract_trader_name (msg_text msg_trade_d) = Inr None
   \<and> extract_trader_name (from_marker @ u '' '') = Inr None
   \<and> extract_trader_name [128176] = Inr None
   \<and> extract_trader_name (u ''hi'') = Inr None
   \<and> collect_trader_names
        (\<lambda>m. if msg_id m = 6 then Inl TypeError else extract_trader_name (msg_text m))
        [msg_trade_a, msg_trade_b, msg_trade_c] []
      = collect_trader_names
        (\<lambda>m. if msg_id m = 6 then Inl TypeError else extract_trader_name (msg_text m))
        [msg_trade_a, msg_trade_c] []"
proof -
  let ?ms = "[msg_trade_a, msg_trade_b, msg_trade_c]"
  let ?body = "\<lambda>m. if msg_id m = 6 then Inl TypeError else extract_trader_name (msg_text m)"
  have st: "strip (u '' Zed '') = u ''Zed''" "strip (u ''Zed'') = u ''Zed''"
    by (simp_all add: strip_def strip_with_def isspace_def u_def)
  have ha: "msg_text msg_trade_a = [] @ [128176] @ u '' Zed '' @ [12304] @ u ''x''
        \<and> 128176 \<notin> set [] \<and> 12304 \<notin> set [] \<and> 12304 \<notin> set (u '' Zed '') \<and> strip (u '' Zed '') \<noteq> []"
    unfolding st by (simp add: msg_trade_a_def u_def)
  have hc: "msg_text msg_trade_c = [] @ [128176] @ u ''Zed'' @ [12304] @ []
        \<and> 128176 \<notin> set [] \<and> 12304 \<notin> set [] \<and> 12304 \<notin> set (u ''Zed'') \<and> strip (u ''Zed'') \<noteq> []"
    unfolding st by (simp add: msg_trade_c_def u_def)
  have sw: "split_ws (u '' Amy now'') = [u ''Amy'', u ''now'']" "split_ws (u '' '') = []"
    by (simp_all add: split_ws_def isspace_def u_def)
  have hb: "12304 \<notin> set (msg_text msg_trade_b) \<and> msg_text msg_trade_b = [] @ from_marker @ u '' Amy now''
        \<and> (\<forall>i<length []. \<not> prefix from_marker (drop i (msg_text msg_trade_b)))
        \<and> split_ws (u '' Amy now'') = u ''Amy'' # [u ''now'']"
    unfolding sw by (simp add: msg_trade_b_def from_marker_def u_def)
  have hd: "128176 \<in> set (msg_text msg_trade_d) \<and> 12304 \<in> set (msg_text msg_trade_d)
        \<and> (\<nexists>a' name' b'. msg_text msg_trade_d = a' @ [128176] @ name' @ [12304] @ b'
               \<and> 128176 \<notin> set a' \<and> 12304 \<notin> set a' \<and> 12304 \<notin> set name' \<and> strip name' \<noteq> [])"
    by (auto simp add: msg_trade_d_def from_marker_def u_def Cons_eq_append_conv)
  have he: "12304 \<notin> set (from_marker @ u '' '') \<and> from_marker @ u '' '' = [] @ from_marker @ u '' ''
        \<and> (\<forall>i<length []. \<not> prefix from_marker (drop i (from_marker @ u '' '')))
        \<and> split_ws (u '' '') = []"
    unfolding sw by (simp add: from_marker_def u_def)
  have hf: "12304 \<notin> set [128176::nat] \<and> \<not> contains [128176] from_marker"
    by (simp add: contains_def find_str_def adjust_index_def from_marker_def u_def)
  have hn: "128176 \<notin> set (u ''hi'')" by (simp add: u_def)
  have hs: "?body msg_trade_b = Inl TypeError" by (simp add: msg_trade_b_def)
  note T = trader_names_extraction [where messages = ?ms and ?t1.0 = "msg_text msg_trade_a"
      and a = "[]" and name = "u '' Zed ''" and b = "u ''x''" and ?t2.0 = "msg_text msg_trade_b"
      and ?a2.0 = "[]" and rest = "u '' Amy now''" and w = "u ''Amy''" and ws = "[u ''now'']"
      and ?t3.0 = "u ''hi''" and ?t4.0 = "msg_text msg_trade_d"
      and ?t5.0 = "from_marker @ u '' ''" and ?a5.0 = "[]" and ?rest5.0 = "u '' ''"
      and ?t6.0 = "[128176]" and body = ?body and m = msg_trade_b and e = TypeError
      and before = "[msg_trade_a]" and after = "[msg_trade_c]" and acc = "[]"]
  note T' = trader_names_extraction [where ?t1.0 = "msg_text msg_trade_c"
      and a = "[]" and name = "u ''Zed''" and b = "[]"]
  from T ha have 1: "extract_trader_name (msg_text msg_trade_a) = Inr (Some (u ''Zed''))"
    unfolding st by blast
  from T hb have 2: "extract_trader_name (msg_text msg_trade_b) = Inr (Some (u ''Amy''))" by blast
  from T' hc have 3: "extract_trader_name (msg_text msg_trade_c) = Inr (Some (u ''Zed''))"
    unfolding st by blast
  from T hn have 4: "extract_trader_name (u ''hi'') = Inr None" by blast
  from T hs have 5: "collect_trader_names ?body ([msg_trade_a] @ msg_trade_b # [msg_trade_c]) []
      = collect_trader_names ?body ([msg_trade_a] @ [msg_trade_c]) []" by blast
  from T have "set (trader_names ?ms)
     = {n. \<exists>m\<in>set ?ms. extract_trader_name (msg_text m) = Inr (Some n)}" by blast
  also have "\<dots> = {u ''Amy'', u ''Zed''}" using 1 2 3 by auto
  finally have 6: "set (trader_names ?ms) = {u ''Amy'', u ''Zed''}" .
  from T hd have 7: "extract_trader_name (msg_text msg_trade_d) = Inr None" by blast
  from T he have 8: "extract_trader_name (from_marker @ u '' '') = Inr None" by blast
  from T hf have 9: "extract_trader_name [128176] = Inr None" by blast
  from 1 2 4 5 6 7 8 9 show ?thesis by simp
qed

text \<open>
  C10 as stated fails: in the text of \<open>msg_trade_d\<close> the prefix token is followed by the
  token \<open>Amy\<close>, which the second convention names; the code, having seen both marker
  characters, tries the first convention only and collects nothing.
\<close>

theorem trader_names_prefix_after_bracket_counterexample:
  "spec_prefix_convention (msg_text msg_trade_d) = Some (u ''Amy'')
   \<and> extract_trader_name (msg_text msg_trade_d) = Inr None
   \<and> trader_names [msg_trade_d] = []"
  by (simp add: spec_prefix_convention_def extract_trader_name_def trader_names_def
        msg_trade_d_def from_marker_def contains_def find_str_def adjust_index_def
        slice_def slice_from_def split_ws_def strip_def strip_with_def isspace_def u_def Let_def)

end
